theory Spec2Isabelle
  imports Main "HOL-Library.Word"
begin

section \<open>Simon memory game: the sketch \<^verbatim>\<open>simon.ino\<close> as HOL functions\<close>

text \<open>
  The sketch is a single-threaded control loop over a handful of globals. The globals are
  the fields of the record \<open>simon\<close>; every function of the sketch takes the record and
  returns the updated one. The hardware is explicit:
  \<^item> the clock and the button pins are observed through a list of \<open>tick\<close>s, one per
    polling instant (one evaluation of a wait-loop condition, or one reading of the start
    time); all \<^verbatim>\<open>millis()\<close> and \<^verbatim>\<open>digitalRead\<close> calls of one instant see the same tick;
  \<^item> \<^verbatim>\<open>random(4)\<close> draws from a stream of raw random numbers, reduced modulo 4;
  \<^item> the EEPROM cell at \<^verbatim>\<open>EEPROM_HIGH_SCORE\<close> is the field \<open>eeprom\<close>;
  \<^item> what the sketch drives on LEDs, buzzer and EEPROM is appended to the field \<open>emitted\<close>.
  A read of \<^verbatim>\<open>gameSequence\<close> outside its \<^verbatim>\<open>MAX_LEVEL\<close> cells is undefined behaviour in
  C++; here it is the result \<open>Fault i\<close>. A wait loop that is still polling when the
  observed ticks end has the result \<open>Waiting\<close>.
\<close>

subsection \<open>Constants and types\<close>

definition MAX_LEVEL :: nat where
  "MAX_LEVEL = 100"

definition INITIAL_SPEED :: int where
  "INITIAL_SPEED = 1000"

definition SPEED_DECREASE :: int where
  "SPEED_DECREASE = 50"

definition MIN_SPEED :: int where
  "MIN_SPEED = 250"

type_synonym byte = "8 word"

type_synonym ulong = "32 word"

definition debounceDelay :: ulong where
  "debounceDelay = 50"

datatype pin_level = LOW | HIGH

definition buttonPins :: "nat list" where
  "buttonPins = [6, 7, 8, 9]"

record tick =
  millis :: ulong
  digitalRead :: "nat \<Rightarrow> pin_level"

text \<open>
  What the sketch sends to its outputs, in the order it sends it:
  \<^item> \<open>AddedStep v\<close>: \<^verbatim>\<open>addNewStep()\<close> reports the symbol it stored;
  \<^item> \<open>ShowStep i v on off\<close>: \<^verbatim>\<open>displaySequence()\<close> shows index \<open>i\<close>, symbol \<open>v\<close>: LED and tone
    of \<open>v\<close> for \<open>on\<close> ms, then off for \<open>off\<close> ms;
  \<^item> \<open>PlayerPressed b\<close>: \<^verbatim>\<open>readPlayerSequence()\<close> lights button \<open>b\<close> for 200 ms;
  \<^item> \<open>EepromWrite v\<close>: \<^verbatim>\<open>EEPROM.write(EEPROM_HIGH_SCORE, v)\<close> and the new high score message;
  \<^item> \<open>ErrorFlash\<close>, \<open>FinalScore v\<close>, \<open>ScorePulse\<close>: the four flashes, the score message and
    the one pulse per level of \<^verbatim>\<open>handleGameOver()\<close>;
  \<^item> \<open>LevelUpPause v\<close>: the message and the pause of \<^verbatim>\<open>levelUp()\<close>;
  \<^item> \<open>StartupSequence\<close>: the light show of \<^verbatim>\<open>startupSequence()\<close>.
  Which pin and which frequency belong to a symbol (\<^verbatim>\<open>ledPins\<close>, \<^verbatim>\<open>tones\<close>) is left to the
  output side; the events carry the symbol.
\<close>

datatype event =
    AddedStep byte
  | ShowStep nat byte ulong ulong
  | PlayerPressed nat
  | EepromWrite byte
  | ErrorFlash
  | FinalScore byte
  | ScorePulse
  | LevelUpPause byte
  | StartupSequence

record simon =
  currentButtonState :: "nat \<Rightarrow> pin_level"
  lastButtonState :: "nat \<Rightarrow> pin_level"
  lastDebounceTime :: "nat \<Rightarrow> ulong"
  gameSequence :: "byte list"
  currentLevel :: byte
  highScore :: byte
  currentSpeed :: ulong
  gameOver :: bool
  eeprom :: byte
  randomSource :: "nat \<Rightarrow> nat"
  emitted :: "event list"

text \<open>
  How a call ends: it returns, it reads \<^verbatim>\<open>gameSequence\<close> at an index the array does not
  have, or the observed ticks end while it is still polling.
\<close>

datatype 'a outcome = Returns 'a | Fault nat | Waiting

subsection \<open>Start of the program\<close>

text \<open>The initialisers of the globals; the EEPROM cell and the random stream are given.\<close>

definition initial :: "byte \<Rightarrow> (nat \<Rightarrow> nat) \<Rightarrow> simon" where
  "initial stored rnd =
     \<lparr> currentButtonState = (\<lambda>_. HIGH),
       lastButtonState = (\<lambda>_. HIGH),
       lastDebounceTime = (\<lambda>_. 0),
       gameSequence = replicate MAX_LEVEL 0,
       currentLevel = 0,
       highScore = 0,
       currentSpeed = word_of_int INITIAL_SPEED,
       gameOver = False,
       eeprom = stored,
       randomSource = rnd,
       emitted = [] \<rparr>"

definition startupSequence :: "simon \<Rightarrow> simon" where
  "startupSequence s = s\<lparr>emitted := emitted s @ [StartupSequence]\<rparr>"

definition setup_sketch :: "simon \<Rightarrow> simon" where
  "setup_sketch s = startupSequence (s\<lparr>highScore := eeprom s\<rparr>)"

subsection \<open>The sequence\<close>

text \<open>\<^verbatim>\<open>gameSequence[i]\<close> as a read: the array has \<^verbatim>\<open>MAX_LEVEL\<close> cells.\<close>

definition gameSequence_at :: "simon \<Rightarrow> nat \<Rightarrow> byte option" where
  "gameSequence_at s i =
     (if i < MAX_LEVEL then Some (gameSequence s ! i) else None)"

text \<open>\<^verbatim>\<open>random(4)\<close>: the next raw number of the generator modulo 4.\<close>

definition random4 :: "simon \<Rightarrow> byte \<times> simon" where
  "random4 s =
     (word_of_nat (randomSource s 0 mod 4),
      s\<lparr>randomSource := (\<lambda>k. randomSource s (Suc k))\<rparr>)"

definition addNewStep :: "simon \<Rightarrow> simon" where
  "addNewStep s =
     (if unat (currentLevel s) < MAX_LEVEL then
        (case random4 s of
          (v, s1) \<Rightarrow>
            s1\<lparr>gameSequence := (gameSequence s1)[unat (currentLevel s1) := v],
                emitted := emitted s1 @ [AddedStep v]\<rparr>)
      else s)"

text \<open>
  The body of the loop of \<^verbatim>\<open>displaySequence\<close>, over the indices it visits. The loop
  counter is a byte; it cannot wrap, because the read at index \<^verbatim>\<open>MAX_LEVEL\<close> already
  faults.
\<close>

fun displaySteps :: "nat list \<Rightarrow> simon \<Rightarrow> simon outcome" where
  "displaySteps [] s = Returns s"
| "displaySteps (i # rest) s =
     (case gameSequence_at s i of
        None \<Rightarrow> Fault i
      | Some currentStep \<Rightarrow>
          displaySteps rest
            (s\<lparr>emitted := emitted s @
               [ShowStep i currentStep (currentSpeed s) (currentSpeed s div 2)]\<rparr>))"

definition displaySequence :: "simon \<Rightarrow> simon outcome" where
  "displaySequence s = displaySteps [0..<Suc (unat (currentLevel s))] s"

subsection \<open>Buttons\<close>

text \<open>
  \<^verbatim>\<open>readButton(button)\<close> at one tick: the reading of the pin, the restart of the debounce
  timer when the reading differs from the previous one, the new debounced level when the
  timer is past \<^verbatim>\<open>debounceDelay\<close>, and the result, true when that new level is \<open>LOW\<close>.
  Clock differences are unsigned 32-bit, as \<^verbatim>\<open>unsigned long\<close> is.
\<close>

definition readButton :: "nat \<Rightarrow> tick \<Rightarrow> simon \<Rightarrow> bool \<times> simon" where
  "readButton button tk s =
     (let reading = digitalRead tk (buttonPins ! button);
          s1 = (if reading \<noteq> lastButtonState s button
                then s\<lparr>lastDebounceTime := (lastDebounceTime s)(button := millis tk)\<rparr>
                else s)
      in (case (if millis tk - lastDebounceTime s1 button > debounceDelay then
                  (if reading \<noteq> currentButtonState s1 button then
                     (let s2 = s1\<lparr>currentButtonState :=
                                      (currentButtonState s1)(button := reading)\<rparr>
                      in (currentButtonState s2 button = LOW, s2))
                   else (False, s1))
                else (False, s1)) of
            (buttonPressed, s3) \<Rightarrow>
              (buttonPressed, s3\<lparr>lastButtonState := (lastButtonState s3)(button := reading)\<rparr>)))"

text \<open>
  The inner loop of \<^verbatim>\<open>readPlayerSequence\<close> over the buttons: the first button that
  reports a press is the player's input, it is shown for 200 ms and the loop breaks.
\<close>

fun pollButtons :: "nat list \<Rightarrow> tick \<Rightarrow> simon \<Rightarrow> nat option \<times> simon" where
  "pollButtons [] tk s = (None, s)"
| "pollButtons (button # rest) tk s =
     (case readButton button tk s of
        (True, s1) \<Rightarrow> (Some button, s1\<lparr>emitted := emitted s1 @ [PlayerPressed button]\<rparr>)
      | (False, s1) \<Rightarrow> pollButtons rest tk s1)"

text \<open>
  The wait loop of one step: \<open>Some b\<close> is the press that ended it, \<open>None\<close> the timeout.
  Each evaluation of the loop condition observes one tick.
\<close>

fun waitForInput :: "ulong \<Rightarrow> tick list \<Rightarrow> simon \<Rightarrow> (nat option \<times> simon \<times> tick list) outcome" where
  "waitForInput inputStartTime [] s = Waiting"
| "waitForInput inputStartTime (tk # tks) s =
     (if millis tk - inputStartTime < 3000 then
        (case pollButtons [0, 1, 2, 3] tk s of
           (Some playerInput, s1) \<Rightarrow> Returns (Some playerInput, s1, tks)
         | (None, s1) \<Rightarrow> waitForInput inputStartTime tks s1)
      else Returns (None, s, tks))"

text \<open>One step of the player's turn, before the comparison: read the start time, wait.\<close>

definition awaitStep :: "tick list \<Rightarrow> simon \<Rightarrow> (nat option \<times> simon \<times> tick list) outcome" where
  "awaitStep tks s =
     (case tks of
        [] \<Rightarrow> Waiting
      | tk # rest \<Rightarrow> waitForInput (millis tk) rest s)"

fun playerSteps :: "nat list \<Rightarrow> tick list \<Rightarrow> simon \<Rightarrow> (bool \<times> simon \<times> tick list) outcome" where
  "playerSteps [] tks s = Returns (True, s, tks)"
| "playerSteps (currentStep # rest) tks s =
     (case awaitStep tks s of
        Waiting \<Rightarrow> Waiting
      | Fault i \<Rightarrow> Fault i
      | Returns (None, s1, tks1) \<Rightarrow> Returns (False, s1, tks1)
      | Returns (Some playerInput, s1, tks1) \<Rightarrow>
          (case gameSequence_at s1 currentStep of
             None \<Rightarrow> Fault currentStep
           | Some expected \<Rightarrow>
               if word_of_nat playerInput \<noteq> expected then Returns (False, s1, tks1)
               else playerSteps rest tks1 s1))"

definition readPlayerSequence :: "tick list \<Rightarrow> simon \<Rightarrow> (bool \<times> simon \<times> tick list) outcome" where
  "readPlayerSequence tks s = playerSteps [0..<Suc (unat (currentLevel s))] tks s"

fun checkButtons :: "nat list \<Rightarrow> tick \<Rightarrow> simon \<Rightarrow> bool \<times> simon" where
  "checkButtons [] tk s = (False, s)"
| "checkButtons (i # rest) tk s =
     (case readButton i tk s of
        (True, s1) \<Rightarrow> (True, s1)
      | (False, s1) \<Rightarrow> checkButtons rest tk s1)"

definition checkAnyButton :: "tick \<Rightarrow> simon \<Rightarrow> bool \<times> simon" where
  "checkAnyButton tk s = checkButtons [0, 1, 2, 3] tk s"

subsection \<open>End of a round\<close>

definition handleGameOver :: "simon \<Rightarrow> simon" where
  "handleGameOver s =
     (let s1 = s\<lparr>gameOver := True\<rparr>;
          s2 = (if currentLevel s1 > highScore s1
                then s1\<lparr>highScore := currentLevel s1,
                        eeprom := currentLevel s1,
                        emitted := emitted s1 @ [EepromWrite (currentLevel s1)]\<rparr>
                else s1)
      in s2\<lparr>emitted := emitted s2 @ replicate 4 ErrorFlash @ [FinalScore (currentLevel s2)]
                @ replicate (unat (currentLevel s2)) ScorePulse\<rparr>)"

text \<open>
  \<^verbatim>\<open>max(MIN_SPEED, INITIAL_SPEED - (currentLevel * SPEED_DECREASE))\<close> is computed in
  \<^verbatim>\<open>int\<close>: a byte times 50 is at most 12750, so neither a 16-bit nor a 32-bit \<^verbatim>\<open>int\<close>
  overflows, and the result, at least 250, converts to \<^verbatim>\<open>unsigned long\<close> unchanged.
\<close>

definition levelUp :: "simon \<Rightarrow> simon" where
  "levelUp s =
     (let s1 = s\<lparr>currentLevel := currentLevel s + 1\<rparr>
      in s1\<lparr>currentSpeed :=
               word_of_int (max MIN_SPEED (INITIAL_SPEED - uint (currentLevel s1) * SPEED_DECREASE)),
             emitted := emitted s1 @ [LevelUpPause (currentLevel s1)]\<rparr>)"

definition resetGame :: "simon \<Rightarrow> simon" where
  "resetGame s =
     startupSequence
       (s\<lparr>currentLevel := 0, currentSpeed := word_of_int INITIAL_SPEED, gameOver := False\<rparr>)"

subsection \<open>The main loop\<close>

definition loop :: "tick list \<Rightarrow> simon \<Rightarrow> (simon \<times> tick list) outcome" where
  "loop tks s =
     (if \<not> gameOver s then
        (case displaySequence (addNewStep s) of
           Waiting \<Rightarrow> Waiting
         | Fault i \<Rightarrow> Fault i
         | Returns s1 \<Rightarrow>
             (case readPlayerSequence tks s1 of
                Waiting \<Rightarrow> Waiting
              | Fault i \<Rightarrow> Fault i
              | Returns (won, s2, tks2) \<Rightarrow>
                  if \<not> won then Returns (handleGameOver s2, tks2)
                  else Returns (levelUp s2, tks2)))
      else
        (case tks of
           [] \<Rightarrow> Waiting
         | tk # rest \<Rightarrow>
             (case checkAnyButton tk s of
                (True, s1) \<Rightarrow> Returns (resetGame s1, rest)
              | (False, s1) \<Rightarrow> Returns (s1, rest))))"

text \<open>The runtime calls \<^verbatim>\<open>loop()\<close> again and again; \<open>loops n\<close> is \<open>n\<close> calls.\<close>

fun loops :: "nat \<Rightarrow> tick list \<Rightarrow> simon \<Rightarrow> (simon \<times> tick list) outcome" where
  "loops 0 tks s = Returns (s, tks)"
| "loops (Suc n) tks s =
     (case loop tks s of
        Returns (s1, tks1) \<Rightarrow> loops n tks1 s1
      | Fault i \<Rightarrow> Fault i
      | Waiting \<Rightarrow> Waiting)"

subsection \<open>Notions used to state the properties\<close>

text \<open>The game proper: every global but the button arrays and the emitted events.\<close>

definition game_of :: "simon \<Rightarrow> byte list \<times> byte \<times> byte \<times> ulong \<times> bool \<times> byte \<times> (nat \<Rightarrow> nat)" where
  "game_of s = (gameSequence s, currentLevel s, highScore s, currentSpeed s, gameOver s,
     eeprom s, randomSource s)"

text \<open>
  \<open>roundsWon n\<close>: \<open>n\<close> calls of \<^verbatim>\<open>loop()\<close> in a row, each entered with the game running and
  none ending the game, that is, \<open>n\<close> consecutive rounds won within one game.
\<close>

fun roundsWon :: "nat \<Rightarrow> tick list \<Rightarrow> simon \<Rightarrow> (simon \<times> tick list) option" where
  "roundsWon 0 tks s = (if gameOver s then None else Some (s, tks))"
| "roundsWon (Suc n) tks s =
     (if gameOver s then None
      else (case loop tks s of
              Returns (s1, tks1) \<Rightarrow> roundsWon n tks1 s1
            | Fault i \<Rightarrow> None
            | Waiting \<Rightarrow> None))"

text \<open>The state in which a game starts: after \<^verbatim>\<open>setup()\<close> and after \<^verbatim>\<open>resetGame()\<close>.\<close>

definition newGame :: "simon \<Rightarrow> bool" where
  "newGame s \<longleftrightarrow> currentLevel s = 0 \<and> currentSpeed s = word_of_int INITIAL_SPEED \<and> \<not> gameOver s"

definition speedFor :: "nat \<Rightarrow> int" where
  "speedFor n = max MIN_SPEED (INITIAL_SPEED - int n * SPEED_DECREASE)"

definition speed_ok :: "simon \<Rightarrow> bool" where
  "speed_ok s \<longleftrightarrow> uint (currentSpeed s) = speedFor (unat (currentLevel s))"

definition in_range :: "simon \<Rightarrow> bool" where
  "in_range s \<longleftrightarrow> unat (currentLevel s) \<le> MAX_LEVEL \<and> speed_ok s"

text \<open>
  The sequence of the game so far, at the start of a round: the first \<^verbatim>\<open>currentLevel\<close> cells
  of the array.
\<close>

definition sequence_of :: "simon \<Rightarrow> byte list" where
  "sequence_of s = take (unat (currentLevel s)) (gameSequence s)"

text \<open>
  The state after the presenting phase of a round: \<^verbatim>\<open>addNewStep()\<close>, then one
  \<open>ShowStep\<close> for each index from 0 to the level.
\<close>

definition presented :: "simon \<Rightarrow> simon" where
  "presented s =
     (addNewStep s)\<lparr>emitted := emitted (addNewStep s) @
        map (\<lambda>i. ShowStep i (gameSequence (addNewStep s) ! i) (currentSpeed s) (currentSpeed s div 2))
          [0..<Suc (unat (currentLevel s))]\<rparr>"

text \<open>
  One channel polled over a list of ticks: \<open>sample\<close> is the raw level the call reads,
  \<open>pollChannel\<close> calls \<^verbatim>\<open>readButton\<close> once per tick and collects the results, \<open>pressEvents\<close>
  counts the calls that returned true. \<open>bouncing\<close> says of the raw levels read that, counted
  from the previous reading \<open>prev\<close> last seen to change at \<open>since\<close>, no level is read
  unchanged more than \<^verbatim>\<open>debounceDelay\<close> ms after it was first read.
\<close>

definition sample :: "nat \<Rightarrow> tick \<Rightarrow> pin_level" where
  "sample b tk = digitalRead tk (buttonPins ! b)"

fun pollChannel :: "nat \<Rightarrow> tick list \<Rightarrow> simon \<Rightarrow> bool list \<times> simon" where
  "pollChannel b [] s = ([], s)"
| "pollChannel b (tk # tks) s =
     (case readButton b tk s of
        (p, s1) \<Rightarrow> (case pollChannel b tks s1 of (ps, s2) \<Rightarrow> (p # ps, s2)))"

definition pressEvents :: "nat \<Rightarrow> tick list \<Rightarrow> simon \<Rightarrow> nat" where
  "pressEvents b tks s = length (filter (\<lambda>p. p) (fst (pollChannel b tks s)))"

fun bouncing :: "nat \<Rightarrow> pin_level \<Rightarrow> ulong \<Rightarrow> tick list \<Rightarrow> bool" where
  "bouncing b prev since [] = True"
| "bouncing b prev since (tk # tks) =
     (if sample b tk \<noteq> prev then bouncing b (sample b tk) (millis tk) tks
      else millis tk - since \<le> debounceDelay \<and> bouncing b prev since tks)"

text \<open>
  A press and a release as the polls read them: \<open>heldLow b ls\<close> says that the ticks \<open>ls\<close> all
  read \<open>LOW\<close> on channel \<open>b\<close> and that one of them comes more than \<^verbatim>\<open>debounceDelay\<close> ms after
  the first; \<open>keptHigh b hs\<close> says the same of \<open>HIGH\<close>. \<open>cycleTicks\<close> are the ticks of presses in
  a row, each a press followed by its release.
\<close>

definition heldLow :: "nat \<Rightarrow> tick list \<Rightarrow> bool" where
  "heldLow b ls \<longleftrightarrow>
     ls \<noteq> [] \<and> (\<forall>tk\<in>set ls. sample b tk = LOW)
     \<and> (\<exists>tk\<in>set ls. debounceDelay < millis tk - millis (hd ls))"

definition keptHigh :: "nat \<Rightarrow> tick list \<Rightarrow> bool" where
  "keptHigh b hs \<longleftrightarrow>
     hs \<noteq> [] \<and> (\<forall>tk\<in>set hs. sample b tk = HIGH)
     \<and> (\<exists>tk\<in>set hs. debounceDelay < millis tk - millis (hd hs))"

definition cycleTicks :: "(tick list \<times> tick list) list \<Rightarrow> tick list" where
  "cycleTicks cs = concat (map (\<lambda>(ls, hs). ls @ hs) cs)"





text \<open>
  \<open>put g s\<close> is the state \<open>s\<close> with other contents \<open>g\<close> in the array; \<open>observable s\<close> is
  everything of a state but the contents of the array: the emitted events, the level, the
  speed, the high score, the EEPROM cell, the buttons, the random generator. \<open>agree s g\<close>:
  both arrays have \<open>MAX_LEVEL\<close> cells and, while a game is running, the same symbols below
  the level.
\<close>

definition put :: "byte list \<Rightarrow> simon \<Rightarrow> simon" where
  "put g s = s\<lparr>gameSequence := g\<rparr>"

definition observable :: "simon \<Rightarrow> simon" where
  "observable s = s\<lparr>gameSequence := []\<rparr>"

definition agree :: "simon \<Rightarrow> byte list \<Rightarrow> bool" where
  "agree s g \<longleftrightarrow>
     length g = MAX_LEVEL \<and> length (gameSequence s) = MAX_LEVEL
     \<and> (\<not> gameOver s \<longrightarrow> (\<forall>i < unat (currentLevel s). g ! i = gameSequence s ! i))"

text \<open>
  For the run that wins every round by pressing button 2: \<open>calm\<close> says that the buttons 0, 1
  and 3 are up and settled and that button 2 is settled; \<open>winning s L\<close> describes the state
  of that run at level \<open>L\<close>.
\<close>

definition calm :: "simon \<Rightarrow> bool" where
  "calm s \<longleftrightarrow>
     currentButtonState s 0 = HIGH \<and> lastButtonState s 0 = HIGH
     \<and> currentButtonState s 1 = HIGH \<and> lastButtonState s 1 = HIGH
     \<and> currentButtonState s 3 = HIGH \<and> lastButtonState s 3 = HIGH
     \<and> currentButtonState s 2 = lastButtonState s 2"

definition winning :: "simon \<Rightarrow> nat \<Rightarrow> bool" where
  "winning s L \<longleftrightarrow>
     calm s \<and> \<not> gameOver s \<and> unat (currentLevel s) = L
     \<and> length (gameSequence s) = MAX_LEVEL \<and> (\<forall>i < L. gameSequence s ! i = 2)
     \<and> randomSource s = (\<lambda>_. 2) \<and> highScore s = 0 \<and> eeprom s = 0"

subsection \<open>Concrete inputs\<close>

text \<open>
  Pin levels with one button held down or none; the ticks of one step in which the player
  releases all buttons and then presses button \<open>b\<close> past the debounce delay; the ticks of a
  step in which nothing is pressed for 3000 ms; the state after \<^verbatim>\<open>setup()\<close> with a given
  EEPROM cell and a random generator that always draws 2.
\<close>

definition pressing :: "nat \<Rightarrow> nat \<Rightarrow> pin_level" where
  "pressing b = (\<lambda>pin. if pin = buttonPins ! b then LOW else HIGH)"

definition released :: "nat \<Rightarrow> pin_level" where
  "released = (\<lambda>pin. HIGH)"

definition stepTicks :: "ulong \<Rightarrow> nat \<Rightarrow> tick list" where
  "stepTicks t b =
     [\<lparr>millis = t, digitalRead = released\<rparr>,
      \<lparr>millis = t, digitalRead = released\<rparr>,
      \<lparr>millis = t + 51, digitalRead = released\<rparr>,
      \<lparr>millis = t + 52, digitalRead = pressing b\<rparr>,
      \<lparr>millis = t + 103, digitalRead = pressing b\<rparr>]"

definition timeoutTicks :: "ulong \<Rightarrow> tick list" where
  "timeoutTicks t =
     [\<lparr>millis = t, digitalRead = released\<rparr>,
      \<lparr>millis = t + 3000, digitalRead = released\<rparr>]"

definition bootWith :: "byte \<Rightarrow> simon" where
  "bootWith stored = setup_sketch (initial stored (\<lambda>_. 2))"

text \<open>
  The game state after 100 rounds won with a generator that always draws 2; a state in
  which a game was lost at level 1 and button 1 was seen down at the last poll; a tick with
  button 1 down and a tick with no button down.
\<close>

definition capState :: simon where
  "capState = (bootWith 0)\<lparr>gameSequence := replicate MAX_LEVEL 2, currentLevel := 100,
     currentSpeed := 250\<rparr>"

definition lostState :: simon where
  "lostState = (handleGameOver (levelUp (bootWith 5)))\<lparr>lastButtonState := (\<lambda>_. HIGH)(1 := LOW)\<rparr>"

definition pressTick :: tick where
  "pressTick = \<lparr>millis = 100, digitalRead = pressing 1\<rparr>"

definition idleTick :: tick where
  "idleTick = \<lparr>millis = 100, digitalRead = released\<rparr>"

text \<open>
  Ticks on which button 1 flips within the debounce delay; ticks with all buttons up; ticks
  with button 1 held down from \<open>millis = 40\<close> on.
\<close>

definition bounceTicks :: "tick list" where
  "bounceTicks =
     [\<lparr>millis = 10, digitalRead = pressing 1\<rparr>,
      \<lparr>millis = 30, digitalRead = released\<rparr>,
      \<lparr>millis = 50, digitalRead = pressing 1\<rparr>,
      \<lparr>millis = 90, digitalRead = pressing 1\<rparr>,
      \<lparr>millis = 120, digitalRead = released\<rparr>]"

definition releasedTicks :: "tick list" where
  "releasedTicks =
     [\<lparr>millis = 0, digitalRead = released\<rparr>,
      \<lparr>millis = 20, digitalRead = released\<rparr>]"

definition heldTicks :: "tick list" where
  "heldTicks =
     [\<lparr>millis = 40, digitalRead = pressing 1\<rparr>,
      \<lparr>millis = 60, digitalRead = pressing 1\<rparr>,
      \<lparr>millis = 91, digitalRead = pressing 1\<rparr>,
      \<lparr>millis = 150, digitalRead = pressing 1\<rparr>]"

text \<open>
  After the hold of \<open>heldTicks\<close>: button 1 released from \<open>millis = 200\<close> on, held again from
  \<open>millis = 300\<close> on, released again from \<open>millis = 400\<close> on.
\<close>

definition upTicks :: "tick list" where
  "upTicks =
     [\<lparr>millis = 200, digitalRead = released\<rparr>,
      \<lparr>millis = 230, digitalRead = released\<rparr>,
      \<lparr>millis = 260, digitalRead = released\<rparr>]"

definition heldAgain :: "tick list" where
  "heldAgain =
     [\<lparr>millis = 300, digitalRead = pressing 1\<rparr>,
      \<lparr>millis = 330, digitalRead = pressing 1\<rparr>,
      \<lparr>millis = 360, digitalRead = pressing 1\<rparr>]"

definition upAgain :: "tick list" where
  "upAgain =
     [\<lparr>millis = 400, digitalRead = released\<rparr>,
      \<lparr>millis = 460, digitalRead = released\<rparr>]"

text \<open>
  The ticks of \<open>n\<close> steps, and of \<open>n\<close> rounds from level \<open>L\<close> on, in which the player presses
  button 2 at every step; the clock advances by 200 ms per step.
\<close>

fun winTicks :: "ulong \<Rightarrow> nat \<Rightarrow> tick list" where
  "winTicks t 0 = []"
| "winTicks t (Suc n) = stepTicks t 2 @ winTicks (t + 200) n"

fun gameTicks :: "ulong \<Rightarrow> nat \<Rightarrow> nat \<Rightarrow> tick list" where
  "gameTicks t L 0 = []"
| "gameTicks t L (Suc n) =
     winTicks t (Suc L) @ gameTicks (t + 200 * word_of_nat (Suc L)) (Suc L) n"

section \<open>Properties\<close>

subsection \<open>Frame lemmas: what polling and playback leave alone\<close>

lemma readButton_game: "game_of (snd (readButton b tk s)) = game_of s"
  by (simp add: readButton_def game_of_def Let_def split: prod.splits if_splits)

lemma readButton_emitted: "emitted (snd (readButton b tk s)) = emitted s"
  by (simp add: readButton_def Let_def split: prod.splits if_splits)

lemma pollButtons_game: "game_of (snd (pollButtons bs tk s)) = game_of s"
proof (induction bs arbitrary: s)
  case Nil
  then show ?case by simp
next
  case (Cons b bs)
  show ?case
  proof (cases "readButton b tk s")
    case (Pair p s1)
    with Cons[of s1] readButton_game[of b tk s] show ?thesis
      by (cases p) (simp_all add: game_of_def)
  qed
qed

lemma checkButtons_game: "game_of (snd (checkButtons bs tk s)) = game_of s"
proof (induction bs arbitrary: s)
  case Nil
  then show ?case by simp
next
  case (Cons b bs)
  show ?case
  proof (cases "readButton b tk s")
    case (Pair p s1)
    with Cons[of s1] readButton_game[of b tk s] show ?thesis
      by (cases p) (simp_all add: game_of_def)
  qed
qed

lemma waitForInput_game:
  "waitForInput st tks s = Returns (r, s', tks') \<Longrightarrow> game_of s' = game_of s"
proof (induction tks arbitrary: s)
  case Nil
  then show ?case by simp
next
  case (Cons tk tks)
  show ?case
  proof (cases "millis tk - st < 3000")
    case False
    with Cons.prems show ?thesis by simp
  next
    case True
    obtain p s1 where ps: "pollButtons [0, 1, 2, 3] tk s = (p, s1)"
      by (cases "pollButtons [0, 1, 2, 3] tk s")
    have g1: "game_of s1 = game_of s"
      using pollButtons_game[of "[0, 1, 2, 3]" tk s] ps by simp
    show ?thesis
    proof (cases p)
      case None
      with Cons.prems True ps have "waitForInput st tks s1 = Returns (r, s', tks')" by simp
      from Cons.IH[OF this] g1 show ?thesis by simp
    next
      case (Some b)
      with Cons.prems True ps g1 show ?thesis by simp
    qed
  qed
qed

lemma awaitStep_game:
  "awaitStep tks s = Returns (r, s', tks') \<Longrightarrow> game_of s' = game_of s"
  by (auto simp: awaitStep_def split: list.splits dest: waitForInput_game)


lemma playerSteps_game:
  "playerSteps is tks s = Returns (w, s', tks') \<Longrightarrow> game_of s' = game_of s"
proof (induction "is" arbitrary: tks s)
  case Nil
  then show ?case by simp
next
  case (Cons i "is")
  from Cons.prems obtain r s1 tks1 where a: "awaitStep tks s = Returns (r, s1, tks1)"
    by (cases "awaitStep tks s") auto
  from awaitStep_game[OF a] have g1: "game_of s1 = game_of s" .
  show ?case
  proof (cases r)
    case None
    with Cons.prems a g1 show ?thesis by simp
  next
    case (Some b)
    show ?thesis
    proof (cases "gameSequence_at s1 i")
      case None
      with Cons.prems a Some show ?thesis by simp
    next
      case (Some e)
      show ?thesis
      proof (cases "word_of_nat b \<noteq> e")
        case True
        with Cons.prems a \<open>r = Some b\<close> Some g1 show ?thesis by simp
      next
        case False
        with Cons.prems a \<open>r = Some b\<close> Some
        have "playerSteps is tks1 s1 = Returns (w, s', tks')" by simp
        from Cons.IH[OF this] g1 show ?thesis by simp
      qed
    qed
  qed
qed

lemma displaySteps_game:
  "displaySteps is s = Returns s' \<Longrightarrow> game_of s' = game_of s"
proof (induction "is" arbitrary: s)
  case Nil
  then show ?case by simp
next
  case (Cons i "is")
  then show ?case
    by (fastforce simp: game_of_def gameSequence_at_def split: option.splits if_splits)
qed

lemma displaySteps_bound:
  "displaySteps is s = Returns s' \<Longrightarrow> i \<in> set is \<Longrightarrow> i < MAX_LEVEL"
proof (induction "is" arbitrary: s)
  case Nil
  then show ?case by simp
next
  case (Cons j "is")
  then show ?case
    by (auto simp: gameSequence_at_def split: option.splits if_splits)
qed

lemma displaySequence_bound:
  "displaySequence s = Returns s' \<Longrightarrow> unat (currentLevel s) < MAX_LEVEL"
  unfolding displaySequence_def
  by (erule displaySteps_bound) simp


lemma addNewStep_level: "currentLevel (addNewStep s) = currentLevel s"
  by (simp add: addNewStep_def random4_def)

lemma addNewStep_other:
  "highScore (addNewStep s) = highScore s" "currentSpeed (addNewStep s) = currentSpeed s"
  "gameOver (addNewStep s) = gameOver s" "eeprom (addNewStep s) = eeprom s"
  by (simp_all add: addNewStep_def random4_def)

text \<open>What one call of loop does to the game fields.\<close>

lemma loop_cases:
  assumes "loop tks s = Returns (s', tks')"
  shows "(gameOver s \<and> (game_of s' = game_of s \<or> game_of s' = game_of (resetGame s)))
       \<or> (\<not> gameOver s \<and> unat (currentLevel s) < MAX_LEVEL
            \<and> (game_of s' = game_of (levelUp (addNewStep s))
               \<or> game_of s' = game_of (handleGameOver (addNewStep s))))"
proof (cases "gameOver s")
  case True
  with assms obtain tk where tks: "tks = tk # tks'"
    by (auto simp: loop_def split: list.splits prod.splits bool.splits)
  obtain p s1 where c: "checkAnyButton tk s = (p, s1)" by (cases "checkAnyButton tk s")
  have g: "game_of s1 = game_of s"
    using checkButtons_game[of "[0, 1, 2, 3]" tk s] c by (simp add: checkAnyButton_def)
  from assms True tks c have "s' = (if p then resetGame s1 else s1)"
    by (auto simp: loop_def)
  with g True show ?thesis
    by (auto simp: game_of_def resetGame_def startupSequence_def)
next
  case False
  with assms obtain s1 where d: "displaySequence (addNewStep s) = Returns s1"
    by (cases "displaySequence (addNewStep s)") (auto simp: loop_def)
  from displaySequence_bound[OF d] have lv: "unat (currentLevel s) < MAX_LEVEL"
    by (simp add: addNewStep_level)
  from d have g1: "game_of s1 = game_of (addNewStep s)"
    by (simp add: displaySequence_def displaySteps_game)
  from assms False d obtain won s2 where r: "readPlayerSequence tks s1 = Returns (won, s2, tks')"
    and s': "s' = (if won then levelUp s2 else handleGameOver s2)"
    by (cases "readPlayerSequence tks s1") (auto simp: loop_def split: if_splits)
  from r have g2: "game_of s2 = game_of s1"
    by (simp add: readPlayerSequence_def playerSteps_game)
  from g1 g2 have "game_of s2 = game_of (addNewStep s)" by simp
  then have "game_of (levelUp s2) = game_of (levelUp (addNewStep s))"
    "game_of (handleGameOver s2) = game_of (handleGameOver (addNewStep s))"
    by (simp_all add: game_of_def levelUp_def handleGameOver_def Let_def)
  with s' False lv show ?thesis by auto
qed

subsection \<open>Effects of the game transitions\<close>

lemma handleGameOver_fields:
  "highScore (handleGameOver s) = (if highScore s < currentLevel s then currentLevel s else highScore s)"
  "eeprom (handleGameOver s) = (if highScore s < currentLevel s then currentLevel s else eeprom s)"
  "currentLevel (handleGameOver s) = currentLevel s"
  "currentSpeed (handleGameOver s) = currentSpeed s"
  "gameSequence (handleGameOver s) = gameSequence s"
  "gameOver (handleGameOver s)"
  "emitted (handleGameOver s) =
     emitted s @ (if highScore s < currentLevel s then [EepromWrite (currentLevel s)] else [])
       @ replicate 4 ErrorFlash @ [FinalScore (currentLevel s)]
       @ replicate (unat (currentLevel s)) ScorePulse"
  by (simp_all add: handleGameOver_def Let_def)

lemma levelUp_fields:
  "highScore (levelUp s) = highScore s"
  "eeprom (levelUp s) = eeprom s"
  "currentLevel (levelUp s) = currentLevel s + 1"
  "currentSpeed (levelUp s) =
     word_of_int (max MIN_SPEED (INITIAL_SPEED - uint (currentLevel s + 1) * SPEED_DECREASE))"
  "gameSequence (levelUp s) = gameSequence s"
  "gameOver (levelUp s) = gameOver s"
  by (simp_all add: levelUp_def Let_def)

lemma resetGame_fields:
  "highScore (resetGame s) = highScore s"
  "eeprom (resetGame s) = eeprom s"
  "currentLevel (resetGame s) = 0"
  "currentSpeed (resetGame s) = word_of_int INITIAL_SPEED"
  "gameSequence (resetGame s) = gameSequence s"
  "\<not> gameOver (resetGame s)"
  by (simp_all add: resetGame_def startupSequence_def)

lemma loop_highScore:
  assumes "loop tks s = Returns (s', tks')"
  shows "highScore s \<le> highScore s' \<and> (eeprom s = highScore s \<longrightarrow> eeprom s' = highScore s')"
  using loop_cases[OF assms]
  by (auto simp: game_of_def handleGameOver_fields levelUp_fields resetGame_fields addNewStep_other
      addNewStep_level)

lemma loops_highScore:
  "loops n tks s = Returns (s', tks') \<Longrightarrow>
   highScore s \<le> highScore s' \<and> (eeprom s = highScore s \<longrightarrow> eeprom s' = highScore s')"
proof (induction n arbitrary: tks s)
  case 0
  then show ?case by simp
next
  case (Suc n)
  from Suc.prems obtain s1 tks1 where l: "loop tks s = Returns (s1, tks1)"
    and r: "loops n tks1 s1 = Returns (s', tks')"
    by (cases "loop tks s") auto
  from loop_highScore[OF l] Suc.IH[OF r] show ?case by auto
qed

lemma loop_gameOver_transition:
  assumes "\<not> gameOver s" and "loop tks s = Returns (s', tks')" and "gameOver s'"
  shows "game_of s' = game_of (handleGameOver (addNewStep s))"
  using loop_cases[OF assms(2)] assms(1,3)
  by (auto simp: game_of_def levelUp_fields addNewStep_other)

lemmas run_defs = setup_sketch_def initial_def startupSequence_def loop_def
  addNewStep_def random4_def displaySequence_def readPlayerSequence_def awaitStep_def
  gameSequence_at_def MAX_LEVEL_def readButton_def buttonPins_def pressing_def released_def
  debounceDelay_def levelUp_def handleGameOver_def resetGame_def checkAnyButton_def Let_def
  INITIAL_SPEED_def MIN_SPEED_def SPEED_DECREASE_def upt_rec bootWith_def stepTicks_def
  timeoutTicks_def

subsection \<open>High score\<close>

text \<open>
  Claim C2. \<^verbatim>\<open>handleGameOver\<close> sets the high score, in memory and in the EEPROM cell, to the
  level of the finished game exactly when that level is greater than the high score held so
  far, and it writes the EEPROM only then; a call of \<^verbatim>\<open>loop()\<close> that ends the game does
  this; over any number of calls of \<^verbatim>\<open>loop()\<close> the high score never decreases and the
  EEPROM cell stays equal to it; a game that ends at level 0 changes neither.
\<close>

theorem high_score_update:
  "highScore (handleGameOver s) = (if highScore s < currentLevel s then currentLevel s else highScore s)
   \<and> eeprom (handleGameOver s) = (if highScore s < currentLevel s then currentLevel s else eeprom s)
   \<and> (EepromWrite (currentLevel s) \<in> set (drop (length (emitted s)) (emitted (handleGameOver s)))
        \<longleftrightarrow> highScore s < currentLevel s)
   \<and> (\<forall>tks s' tks'. \<not> gameOver s \<and> loop tks s = Returns (s', tks') \<and> gameOver s' \<longrightarrow>
         highScore s' = (if highScore s < currentLevel s then currentLevel s else highScore s)
         \<and> eeprom s' = (if highScore s < currentLevel s then currentLevel s else eeprom s))
   \<and> (\<forall>n tks s' tks'. loops n tks s = Returns (s', tks') \<longrightarrow>
         highScore s \<le> highScore s' \<and> (eeprom s = highScore s \<longrightarrow> eeprom s' = highScore s'))
   \<and> (currentLevel s = 0 \<longrightarrow>
         highScore (handleGameOver s) = highScore s \<and> eeprom (handleGameOver s) = eeprom s)"
proof -
  have a: "EepromWrite (currentLevel s) \<in> set (drop (length (emitted s)) (emitted (handleGameOver s)))
        \<longleftrightarrow> highScore s < currentLevel s"
    by (auto simp: handleGameOver_fields)
  have b: "highScore s' = (if highScore s < currentLevel s then currentLevel s else highScore s)
         \<and> eeprom s' = (if highScore s < currentLevel s then currentLevel s else eeprom s)"
    if "\<not> gameOver s \<and> loop tks s = Returns (s', tks') \<and> gameOver s'" for tks s' tks'
    using loop_gameOver_transition[of s tks s' tks'] that
    by (simp add: game_of_def handleGameOver_fields addNewStep_other addNewStep_level)
  have c: "currentLevel s = 0 \<longrightarrow>
         highScore (handleGameOver s) = highScore s \<and> eeprom (handleGameOver s) = eeprom s"
    by (simp add: handleGameOver_fields)
  have d: "highScore (handleGameOver s) = (if highScore s < currentLevel s then currentLevel s else highScore s)"
    and e: "eeprom (handleGameOver s) = (if highScore s < currentLevel s then currentLevel s else eeprom s)"
    by (simp_all add: handleGameOver_fields)
  have f: "highScore s \<le> highScore s' \<and> (eeprom s = highScore s \<longrightarrow> eeprom s' = highScore s')"
    if "loops n tks s = Returns (s', tks')" for n tks s' tks'
    using loops_highScore[OF that] .
  from a b c d e f show ?thesis by blast
qed

theorem high_score_update_witness:
  "(\<exists>s'. \<not> gameOver (bootWith 5) \<and> currentLevel (bootWith 5) = 0
        \<and> loop (timeoutTicks 0) (bootWith 5) = Returns (s', []) \<and> gameOver s'
        \<and> highScore s' = 5 \<and> eeprom s' = 5
        \<and> highScore (handleGameOver (bootWith 5)) = 5)
   \<and> (\<exists>s'. loops (Suc (Suc 0)) (stepTicks 0 2 @ timeoutTicks 200) (bootWith 0) = Returns (s', [])
        \<and> eeprom (bootWith 0) = highScore (bootWith 0)
        \<and> highScore (bootWith 0) \<le> highScore s' \<and> eeprom s' = highScore s')"
proof -
  have "\<exists>s'. loop (timeoutTicks 0) (bootWith 5) = Returns (s', []) \<and> gameOver s'"
    by (simp add: run_defs)
  then obtain s1 where l1: "loop (timeoutTicks 0) (bootWith 5) = Returns (s1, [])"
    and g1: "gameOver s1" by blast
  have b5: "\<not> gameOver (bootWith 5)" "currentLevel (bootWith 5) = 0"
    "highScore (bootWith 5) = 5" "eeprom (bootWith 5) = 5"
    by (simp_all add: run_defs)
  from high_score_update[of "bootWith 5"] l1 g1 b5
  have "highScore s1 = 5 \<and> eeprom s1 = 5 \<and> highScore (handleGameOver (bootWith 5)) = 5"
    by auto
  with l1 g1 b5 have first: "\<exists>s'. \<not> gameOver (bootWith 5) \<and> currentLevel (bootWith 5) = 0
        \<and> loop (timeoutTicks 0) (bootWith 5) = Returns (s', []) \<and> gameOver s'
        \<and> highScore s' = 5 \<and> eeprom s' = 5
        \<and> highScore (handleGameOver (bootWith 5)) = 5" by blast
  have "\<exists>s'. loops (Suc (Suc 0)) (stepTicks 0 2 @ timeoutTicks 200) (bootWith 0) = Returns (s', [])"
    by (simp add: run_defs)
  then obtain s2 where l2:
    "loops (Suc (Suc 0)) (stepTicks 0 2 @ timeoutTicks 200) (bootWith 0) = Returns (s2, [])" by blast
  have b0: "eeprom (bootWith 0) = highScore (bootWith 0)" by (simp add: run_defs)
  from high_score_update[of "bootWith 0"] l2 b0
  have "highScore (bootWith 0) \<le> highScore s2 \<and> eeprom s2 = highScore s2" by blast
  with l2 b0 first show ?thesis by blast
qed

subsection \<open>Level and speed\<close>

lemma speedFor_range: "MIN_SPEED \<le> speedFor n \<and> speedFor n \<le> INITIAL_SPEED"
  by (simp add: speedFor_def MIN_SPEED_def INITIAL_SPEED_def SPEED_DECREASE_def)

lemma speedFor_antimono: "m \<le> n \<Longrightarrow> speedFor n \<le> speedFor m"
  by (simp add: speedFor_def MIN_SPEED_def INITIAL_SPEED_def SPEED_DECREASE_def)

lemma uint_speed: "uint (word_of_int (speedFor n) :: ulong) = speedFor n"
proof -
  have "0 \<le> speedFor n" "speedFor n < 2 ^ 32"
    using speedFor_range[of n] by (simp_all add: MIN_SPEED_def INITIAL_SPEED_def)
  then show ?thesis by (simp add: uint_word_of_int take_bit_int_eq_self)
qed

lemma roundsWon_running: "roundsWon n tks s = Some r \<Longrightarrow> \<not> gameOver s"
  by (cases n) (auto split: if_splits)

lemma won_round:
  assumes "\<not> gameOver s" "loop tks s = Returns (s1, tks1)" "\<not> gameOver s1"
  shows "unat (currentLevel s) < MAX_LEVEL \<and> game_of s1 = game_of (levelUp (addNewStep s))"
  using loop_cases[OF assms(2)] assms(1,3)
  by (auto simp: game_of_def handleGameOver_fields)

lemma levelUp_unat:
  "unat (currentLevel s) < MAX_LEVEL \<Longrightarrow> unat (currentLevel (levelUp s)) = Suc (unat (currentLevel s))"
  by (simp add: levelUp_fields MAX_LEVEL_def unat_word_ariths)

lemma levelUp_speed_ok:
  "unat (currentLevel s) < MAX_LEVEL \<Longrightarrow> speed_ok (levelUp s)"
proof -
  assume a: "unat (currentLevel s) < MAX_LEVEL"
  have "unat (currentLevel s + 1) = Suc (unat (currentLevel s))"
    using levelUp_unat[OF a] by (simp add: levelUp_fields)
  then have "int (unat (currentLevel s + 1)) = int (Suc (unat (currentLevel s)))"
    by (rule arg_cong)
  then have "uint (currentLevel s + 1) = int (Suc (unat (currentLevel s)))"
    by (simp only: of_nat_unat)
  then have "currentSpeed (levelUp s) = word_of_int (speedFor (Suc (unat (currentLevel s))))"
    by (simp add: levelUp_fields speedFor_def)
  then show ?thesis
    by (simp add: speed_ok_def levelUp_unat[OF a] uint_speed)
qed

lemma roundsWon_level:
  "roundsWon n tks s = Some (s', tks') \<Longrightarrow> speed_ok s \<Longrightarrow>
   unat (currentLevel s') = unat (currentLevel s) + n \<and> speed_ok s'"
proof (induction n arbitrary: tks s)
  case 0
  then show ?case by (simp split: if_splits)
next
  case (Suc n)
  from Suc.prems(1) have run: "\<not> gameOver s" by (rule roundsWon_running)
  with Suc.prems(1) obtain s1 tks1 where l: "loop tks s = Returns (s1, tks1)"
    and r: "roundsWon n tks1 s1 = Some (s', tks')"
    by (cases "loop tks s") auto
  from r have run1: "\<not> gameOver s1" by (rule roundsWon_running)
  from won_round[OF run l run1] have lv: "unat (currentLevel s) < MAX_LEVEL"
    and g: "game_of s1 = game_of (levelUp (addNewStep s))" by simp_all
  from lv have lv': "unat (currentLevel (addNewStep s)) < MAX_LEVEL" by (simp add: addNewStep_level)
  from g have "currentLevel s1 = currentLevel (levelUp (addNewStep s))"
    "currentSpeed s1 = currentSpeed (levelUp (addNewStep s))" by (simp_all add: game_of_def)
  with levelUp_unat[OF lv'] levelUp_speed_ok[OF lv']
  have "unat (currentLevel s1) = Suc (unat (currentLevel s))" "speed_ok s1"
    by (simp_all add: speed_ok_def addNewStep_level)
  with Suc.IH[OF r] show ?case by simp
qed

lemma newGame_speed_ok: "newGame s \<Longrightarrow> speed_ok s"
  by (simp add: newGame_def speed_ok_def speedFor_def INITIAL_SPEED_def MIN_SPEED_def)

lemma word_le_by_uint: "uint (a::ulong) \<le> uint b \<Longrightarrow> a \<le> b"
  by (simp add: word_le_def)

lemma roundsWon_add:
  "roundsWon (n + k) tks s =
     (case roundsWon n tks s of None \<Rightarrow> None | Some (s1, tks1) \<Rightarrow> roundsWon k tks1 s1)"
proof (induction n arbitrary: tks s)
  case 0
  show ?case by (cases k) simp_all
next
  case (Suc n)
  then show ?case by (simp split: outcome.splits)
qed

text \<open>
  Claim C3. After \<open>N\<close> consecutive rounds won in a game that started in the new-game state,
  the level is \<open>N\<close> and the speed is \<open>max MIN_SPEED (INITIAL_SPEED - N * SPEED_DECREASE)\<close>;
  as the game goes on (more rounds won, a higher level) the speed never increases; and a game
  starts in the new-game state, with level 0 and speed \<open>INITIAL_SPEED\<close>, after
  \<^verbatim>\<open>resetGame()\<close> from any prior state and after \<^verbatim>\<open>setup()\<close>.
\<close>

theorem level_and_speed_after_wins:
  "(newGame s0 \<and> roundsWon N tks s0 = Some (s, tks') \<longrightarrow>
      unat (currentLevel s) = N
      \<and> uint (currentSpeed s) = max MIN_SPEED (INITIAL_SPEED - int N * SPEED_DECREASE))
   \<and> (newGame s0 \<and> roundsWon N tks s0 = Some (s, tks') \<and> roundsWon K tks' s = Some (s2, tks2) \<longrightarrow>
      unat (currentLevel s) \<le> unat (currentLevel s2) \<and> currentSpeed s2 \<le> currentSpeed s)
   \<and> newGame (resetGame prior) \<and> newGame (setup_sketch (initial stored rnd))"
proof -
  have a: "unat (currentLevel s) = N
      \<and> uint (currentSpeed s) = max MIN_SPEED (INITIAL_SPEED - int N * SPEED_DECREASE)"
    if h: "newGame s0 \<and> roundsWon N tks s0 = Some (s, tks')"
  proof -
    from h roundsWon_level[of N tks s0 s tks'] newGame_speed_ok[of s0]
    have lv: "unat (currentLevel s) = unat (currentLevel s0) + N" and ok: "speed_ok s" by simp_all
    from h lv have "unat (currentLevel s) = N" by (simp add: newGame_def)
    with ok show ?thesis by (simp only: speed_ok_def speedFor_def simp_thms)
  qed
  have b: "unat (currentLevel s) \<le> unat (currentLevel s2) \<and> currentSpeed s2 \<le> currentSpeed s"
    if h: "newGame s0 \<and> roundsWon N tks s0 = Some (s, tks') \<and> roundsWon K tks' s = Some (s2, tks2)"
  proof -
    from h roundsWon_level[of N tks s0 s tks'] newGame_speed_ok[of s0]
    have ok: "speed_ok s" by simp
    from h roundsWon_level[of K tks' s s2 tks2] ok
    have lv: "unat (currentLevel s2) = unat (currentLevel s) + K" and ok2: "speed_ok s2" by simp_all
    from ok ok2 lv speedFor_antimono[of "unat (currentLevel s)" "unat (currentLevel s2)"]
    have "uint (currentSpeed s2) \<le> uint (currentSpeed s)" by (simp add: speed_ok_def)
    then have "currentSpeed s2 \<le> currentSpeed s" by (rule word_le_by_uint)
    with lv show ?thesis by simp
  qed
  have c: "newGame (resetGame prior)" "newGame (setup_sketch (initial stored rnd))"
    by (simp_all add: newGame_def resetGame_fields setup_sketch_def startupSequence_def initial_def)
  from a b c show ?thesis by blast
qed

theorem level_and_speed_after_wins_witness:
  "\<exists>s tks' s2 tks2. newGame (bootWith 0)
     \<and> roundsWon (Suc 0) (stepTicks 0 2 @ stepTicks 200 2 @ stepTicks 400 2) (bootWith 0) = Some (s, tks')
     \<and> roundsWon (Suc 0) tks' s = Some (s2, tks2)
     \<and> unat (currentLevel s) = Suc 0 \<and> uint (currentSpeed s) = 950
     \<and> unat (currentLevel s) \<le> unat (currentLevel s2) \<and> currentSpeed s2 \<le> currentSpeed s"
proof -
  let ?T = "stepTicks 0 2 @ stepTicks 200 2 @ stepTicks 400 2"
  have "\<exists>r. roundsWon (Suc (Suc 0)) ?T (bootWith 0) = Some r"
    by (simp add: run_defs)
  then obtain r where "roundsWon (Suc 0 + Suc 0) ?T (bootWith 0) = Some r" by auto
  then obtain s tks' s2 tks2
    where w1: "roundsWon (Suc 0) ?T (bootWith 0) = Some (s, tks')"
      and w2: "roundsWon (Suc 0) tks' s = Some (s2, tks2)"
    unfolding roundsWon_add[of "Suc 0" "Suc 0"]
    by (cases "roundsWon (Suc 0) ?T (bootWith 0)"; cases r) auto
  have n: "newGame (bootWith 0)"
    using level_and_speed_after_wins[of _ _ _ _ _ _ _ _ _ 0 "\<lambda>_. 2"] by (simp add: bootWith_def)
  from level_and_speed_after_wins[of "bootWith 0" "Suc 0" ?T s tks' "Suc 0" s2 tks2] n w1 w2
  have "unat (currentLevel s) = Suc 0"
    "uint (currentSpeed s) = max MIN_SPEED (INITIAL_SPEED - int (Suc 0) * SPEED_DECREASE)"
    "unat (currentLevel s) \<le> unat (currentLevel s2)" "currentSpeed s2 \<le> currentSpeed s"
    by blast+
  then have "unat (currentLevel s) = Suc 0 \<and> uint (currentSpeed s) = 950
     \<and> unat (currentLevel s) \<le> unat (currentLevel s2) \<and> currentSpeed s2 \<le> currentSpeed s"
    by (simp add: MIN_SPEED_def INITIAL_SPEED_def SPEED_DECREASE_def)
  with n w1 w2 show ?thesis by blast
qed

text \<open>
  Calls of \<^verbatim>\<open>loop()\<close> that return keep the level at most \<open>MAX_LEVEL\<close> and the speed at the
  value \<^verbatim>\<open>levelUp()\<close> computes for the level. This says nothing of the round entered at level
  \<open>MAX_LEVEL\<close>: that call does not return here, it reads \<^verbatim>\<open>gameSequence[MAX_LEVEL]\<close>.
\<close>

lemma loop_in_range:
  assumes "loop tks s = Returns (s', tks')" "in_range s"
  shows "in_range s'"
proof -
  from loop_cases[OF assms(1)] show ?thesis
  proof (elim disjE conjE)
    assume "game_of s' = game_of s"
    with assms(2) show ?thesis by (simp add: in_range_def speed_ok_def game_of_def)
  next
    assume "game_of s' = game_of (resetGame s)"
    then show ?thesis
      by (simp add: in_range_def speed_ok_def game_of_def resetGame_fields speedFor_def
          INITIAL_SPEED_def MIN_SPEED_def)
  next
    assume lv: "unat (currentLevel s) < MAX_LEVEL"
      and g: "game_of s' = game_of (levelUp (addNewStep s))"
    from lv have lv': "unat (currentLevel (addNewStep s)) < MAX_LEVEL" by (simp add: addNewStep_level)
    from g levelUp_unat[OF lv'] levelUp_speed_ok[OF lv'] lv show ?thesis
      by (simp add: in_range_def speed_ok_def game_of_def addNewStep_level)
  next
    assume "game_of s' = game_of (handleGameOver (addNewStep s))"
    with assms(2) show ?thesis
      by (simp add: in_range_def speed_ok_def game_of_def handleGameOver_fields addNewStep_level
          addNewStep_other)
  qed
qed

lemma loops_in_range:
  "loops n tks s = Returns (s', tks') \<Longrightarrow> in_range s \<Longrightarrow> in_range s'"
proof (induction n arbitrary: tks s)
  case 0
  then show ?case by simp
next
  case (Suc n)
  from Suc.prems(1) obtain s1 tks1 where l: "loop tks s = Returns (s1, tks1)"
    and r: "loops n tks1 s1 = Returns (s', tks')"
    by (cases "loop tks s") auto
  from Suc.IH[OF r loop_in_range[OF l Suc.prems(2)]] show ?case .
qed

subsection \<open>Appending to the sequence\<close>

lemma addNewStep_sequence:
  "gameSequence (addNewStep s) =
     (if unat (currentLevel s) < MAX_LEVEL
      then (gameSequence s)[unat (currentLevel s) := word_of_nat (randomSource s 0 mod 4)]
      else gameSequence s)"
  by (simp add: addNewStep_def random4_def)

lemma addNewStep_length: "length (gameSequence (addNewStep s)) = length (gameSequence s)"
  by (simp add: addNewStep_sequence)

lemma addNewStep_emitted:
  "emitted (addNewStep s) =
     (if unat (currentLevel s) < MAX_LEVEL
      then emitted s @ [AddedStep (word_of_nat (randomSource s 0 mod 4))]
      else emitted s)"
  by (simp add: addNewStep_def random4_def)

lemma addNewStep_random:
  "randomSource (addNewStep s) =
     (if unat (currentLevel s) < MAX_LEVEL then (\<lambda>k. randomSource s (Suc k)) else randomSource s)"
  by (simp add: addNewStep_def random4_def)

lemma loop_sequence:
  assumes "loop tks s = Returns (s', tks')"
  shows "gameSequence s' = (if gameOver s then gameSequence s else gameSequence (addNewStep s))"
  using loop_cases[OF assms]
  by (auto simp: game_of_def resetGame_fields levelUp_fields handleGameOver_fields)

lemma loops_length:
  "loops n tks s = Returns (s', tks') \<Longrightarrow> length (gameSequence s') = length (gameSequence s)"
proof (induction n arbitrary: tks s)
  case 0
  then show ?case by simp
next
  case (Suc n)
  from Suc.prems obtain s1 tks1 where l: "loop tks s = Returns (s1, tks1)"
    and r: "loops n tks1 s1 = Returns (s', tks')"
    by (cases "loop tks s") auto
  from loop_sequence[OF l] have "length (gameSequence s1) = length (gameSequence s)"
    by (simp add: addNewStep_length)
  with Suc.IH[OF r] show ?case by simp
qed

text \<open>
  Claim C5. When the level has reached \<open>MAX_LEVEL\<close>, \<^verbatim>\<open>addNewStep()\<close> changes nothing at all
  (no symbol is drawn, no cell is written, nothing is reported); it never changes the number
  of cells of the array, so every state reached from power-up stores \<open>MAX_LEVEL\<close> cells, not
  more; below \<open>MAX_LEVEL\<close> it draws one symbol and writes it to the cell at index
  \<^verbatim>\<open>currentLevel\<close>, leaving every other cell as it was; and a round changes the array only
  by that one call.
\<close>

theorem append_stops_at_cap:
  "(MAX_LEVEL \<le> unat (currentLevel s) \<longrightarrow> addNewStep s = s)
   \<and> length (gameSequence (addNewStep s)) = length (gameSequence s)
   \<and> (unat (currentLevel s) < MAX_LEVEL \<and> length (gameSequence s) = MAX_LEVEL \<longrightarrow>
        gameSequence (addNewStep s) =
          take (unat (currentLevel s)) (gameSequence s)
            @ [word_of_nat (randomSource s 0 mod 4)]
            @ drop (Suc (unat (currentLevel s))) (gameSequence s)
        \<and> randomSource (addNewStep s) = (\<lambda>k. randomSource s (Suc k)))
   \<and> (loops n tks (setup_sketch (initial stored rnd)) = Returns (s', tks') \<longrightarrow>
        length (gameSequence s') = MAX_LEVEL)
   \<and> (\<not> gameOver s \<and> loop tks1 s = Returns (s1, tks2) \<longrightarrow>
        gameSequence s1 = gameSequence (addNewStep s))"
proof -
  have a: "MAX_LEVEL \<le> unat (currentLevel s) \<longrightarrow> addNewStep s = s"
    by (simp add: addNewStep_def)
  have b: "gameSequence (addNewStep s) =
          take (unat (currentLevel s)) (gameSequence s)
            @ [word_of_nat (randomSource s 0 mod 4)]
            @ drop (Suc (unat (currentLevel s))) (gameSequence s)
        \<and> randomSource (addNewStep s) = (\<lambda>k. randomSource s (Suc k))"
    if "unat (currentLevel s) < MAX_LEVEL \<and> length (gameSequence s) = MAX_LEVEL"
    using that by (simp add: addNewStep_sequence addNewStep_random upd_conv_take_nth_drop)
  have c: "length (gameSequence s') = MAX_LEVEL"
    if "loops n tks (setup_sketch (initial stored rnd)) = Returns (s', tks')"
    using loops_length[OF that] by (simp add: setup_sketch_def startupSequence_def initial_def)
  have d: "gameSequence s1 = gameSequence (addNewStep s)"
    if "\<not> gameOver s \<and> loop tks1 s = Returns (s1, tks2)"
    using that loop_sequence[of tks1 s s1 tks2] by simp
  from a b c d addNewStep_length[of s] show ?thesis by blast
qed

theorem append_stops_at_cap_witness:
  "MAX_LEVEL \<le> unat (currentLevel capState) \<and> addNewStep capState = capState
   \<and> unat (currentLevel (bootWith 0)) < MAX_LEVEL \<and> length (gameSequence (bootWith 0)) = MAX_LEVEL
   \<and> gameSequence (addNewStep (bootWith 0)) = 2 # replicate 99 0
   \<and> (\<exists>s' s1. loops (Suc (Suc 0)) (stepTicks 0 2 @ timeoutTicks 200) (bootWith 0) = Returns (s', [])
        \<and> length (gameSequence s') = MAX_LEVEL
        \<and> \<not> gameOver (bootWith 0) \<and> loop (timeoutTicks 0) (bootWith 0) = Returns (s1, [])
        \<and> gameSequence s1 = gameSequence (addNewStep (bootWith 0)))"
proof -
  have c: "MAX_LEVEL \<le> unat (currentLevel capState)"
    by (simp add: capState_def MAX_LEVEL_def)
  with append_stops_at_cap[of capState] have c2: "addNewStep capState = capState" by blast
  have b: "unat (currentLevel (bootWith 0)) < MAX_LEVEL" "length (gameSequence (bootWith 0)) = MAX_LEVEL"
    "\<not> gameOver (bootWith 0)"
    by (simp_all add: run_defs)
  with append_stops_at_cap[of "bootWith 0"]
  have "gameSequence (addNewStep (bootWith 0)) =
          take (unat (currentLevel (bootWith 0))) (gameSequence (bootWith 0))
            @ [word_of_nat (randomSource (bootWith 0) 0 mod 4)]
            @ drop (Suc (unat (currentLevel (bootWith 0)))) (gameSequence (bootWith 0))"
    by blast
  then have b2: "gameSequence (addNewStep (bootWith 0)) = 2 # replicate 99 0"
    by (simp add: bootWith_def setup_sketch_def startupSequence_def initial_def MAX_LEVEL_def)
  have "\<exists>s'. loops (Suc (Suc 0)) (stepTicks 0 2 @ timeoutTicks 200) (setup_sketch (initial 0 (\<lambda>_. 2))) = Returns (s', [])"
    by (simp add: run_defs)
  then obtain s' where l: "loops (Suc (Suc 0)) (stepTicks 0 2 @ timeoutTicks 200) (setup_sketch (initial 0 (\<lambda>_. 2))) = Returns (s', [])"
    by blast
  with append_stops_at_cap[where n = "Suc (Suc 0)" and tks = "stepTicks 0 2 @ timeoutTicks 200"
      and stored = 0 and rnd = "\<lambda>_. 2" and s' = s' and tks' = "[]"]
  have l2: "length (gameSequence s') = MAX_LEVEL" by blast
  have "\<exists>s1. loop (timeoutTicks 0) (bootWith 0) = Returns (s1, [])"
    by (simp add: run_defs)
  then obtain s1 where r: "loop (timeoutTicks 0) (bootWith 0) = Returns (s1, [])" by blast
  with append_stops_at_cap[where s = "bootWith 0" and ?tks1.0 = "timeoutTicks 0" and ?s1.0 = s1
      and ?tks2.0 = "[]"] b
  have r2: "gameSequence s1 = gameSequence (addNewStep (bootWith 0))" by blast
  from c c2 b b2 l l2 r r2 show ?thesis unfolding bootWith_def by blast
qed


subsection \<open>Playback\<close>

lemma displaySteps_emits:
  "\<forall>i\<in>set is. i < MAX_LEVEL \<Longrightarrow>
   displaySteps is s =
     Returns (s\<lparr>emitted := emitted s @
        map (\<lambda>i. ShowStep i (gameSequence s ! i) (currentSpeed s) (currentSpeed s div 2)) is\<rparr>)"
proof (induction "is" arbitrary: s)
  case Nil
  then show ?case by simp
next
  case (Cons i "is")
  then show ?case by (simp add: gameSequence_at_def)
qed

lemma displaySequence_emits:
  "unat (currentLevel s) < MAX_LEVEL \<Longrightarrow>
   displaySequence s =
     Returns (s\<lparr>emitted := emitted s @
        map (\<lambda>i. ShowStep i (gameSequence s ! i) (currentSpeed s) (currentSpeed s div 2))
          [0..<Suc (unat (currentLevel s))]\<rparr>)"
  unfolding displaySequence_def by (rule displaySteps_emits) auto

lemma displaySequence_cap:
  "unat (currentLevel s) = MAX_LEVEL \<Longrightarrow> displaySequence s = Fault MAX_LEVEL"
proof -
  assume a: "unat (currentLevel s) = MAX_LEVEL"
  have "displaySteps ([0..<MAX_LEVEL] @ [MAX_LEVEL]) s = Fault MAX_LEVEL" for s
  proof -
    have "displaySteps (is @ [MAX_LEVEL]) s = Fault MAX_LEVEL" if "\<forall>i\<in>set is. i < MAX_LEVEL" for "is" s
      using that by (induction "is" arbitrary: s) (simp_all add: gameSequence_at_def)
    then show ?thesis by simp
  qed
  with a show ?thesis by (simp add: displaySequence_def)
qed

text \<open>
  Claim C7, amended. In a presenting phase at a level \<open>L\<close> below \<open>MAX_LEVEL\<close> (the array
  having its \<open>MAX_LEVEL\<close> cells), \<^verbatim>\<open>addNewStep()\<close> draws one symbol and stores it at index
  \<open>L\<close>, then \<^verbatim>\<open>displaySequence()\<close> returns after exactly \<open>L + 1\<close> presentations, the
  \<open>i\<close>-th of them showing index \<open>i\<close> and the symbol stored there for \<^verbatim>\<open>currentSpeed\<close> on and
  \<^verbatim>\<open>currentSpeed / 2\<close> off; the button arrays are as before, and the player's turn that
  follows starts with all the ticks: none was observed during playback.
\<close>

theorem presenting_below_cap:
  "unat (currentLevel s) < MAX_LEVEL \<and> length (gameSequence s) = MAX_LEVEL \<longrightarrow>
     gameSequence (addNewStep s) =
       (gameSequence s)[unat (currentLevel s) := word_of_nat (randomSource s 0 mod 4)]
     \<and> gameSequence (addNewStep s) ! unat (currentLevel s) = word_of_nat (randomSource s 0 mod 4)
     \<and> emitted (addNewStep s) = emitted s @ [AddedStep (word_of_nat (randomSource s 0 mod 4))]
     \<and> displaySequence (addNewStep s) = Returns (presented s)
     \<and> length (drop (length (emitted (addNewStep s))) (emitted (presented s))) = unat (currentLevel s) + 1
     \<and> (\<forall>i \<le> unat (currentLevel s).
           drop (length (emitted (addNewStep s))) (emitted (presented s)) ! i =
             ShowStep i (gameSequence (addNewStep s) ! i) (currentSpeed s) (currentSpeed s div 2))
     \<and> currentButtonState (presented s) = currentButtonState s
     \<and> lastButtonState (presented s) = lastButtonState s
     \<and> lastDebounceTime (presented s) = lastDebounceTime s
     \<and> (\<not> gameOver s \<longrightarrow>
          loop tks s =
            (case readPlayerSequence tks (presented s) of
               Waiting \<Rightarrow> Waiting
             | Fault i \<Rightarrow> Fault i
             | Returns (won, s2, tks2) \<Rightarrow>
                 Returns (if won then levelUp s2 else handleGameOver s2, tks2)))"
proof (intro impI, elim conjE)
  assume lv: "unat (currentLevel s) < MAX_LEVEL" and len: "length (gameSequence s) = MAX_LEVEL"
  have a: "gameSequence (addNewStep s) =
       (gameSequence s)[unat (currentLevel s) := word_of_nat (randomSource s 0 mod 4)]"
    using lv by (simp add: addNewStep_sequence)
  have b: "gameSequence (addNewStep s) ! unat (currentLevel s) = word_of_nat (randomSource s 0 mod 4)"
    using lv len by (simp add: a)
  have c: "emitted (addNewStep s) = emitted s @ [AddedStep (word_of_nat (randomSource s 0 mod 4))]"
    using lv by (simp add: addNewStep_emitted)
  have d: "displaySequence (addNewStep s) = Returns (presented s)"
    using displaySequence_emits[of "addNewStep s"] lv
    by (simp add: addNewStep_level addNewStep_other presented_def)
  have e: "drop (length (emitted (addNewStep s))) (emitted (presented s)) =
      map (\<lambda>i. ShowStep i (gameSequence (addNewStep s) ! i) (currentSpeed s) (currentSpeed s div 2))
          [0..<Suc (unat (currentLevel s))]"
    by (simp add: presented_def)
  have f: "length (drop (length (emitted (addNewStep s))) (emitted (presented s))) = unat (currentLevel s) + 1"
    unfolding e by simp
  have g: "\<forall>i \<le> unat (currentLevel s).
           drop (length (emitted (addNewStep s))) (emitted (presented s)) ! i =
             ShowStep i (gameSequence (addNewStep s) ! i) (currentSpeed s) (currentSpeed s div 2)"
    unfolding e by (auto simp del: upt_Suc simp: nth_map_upt less_Suc_eq_le)
  have h: "currentButtonState (presented s) = currentButtonState s"
     "lastButtonState (presented s) = lastButtonState s"
     "lastDebounceTime (presented s) = lastDebounceTime s"
    by (simp_all add: presented_def addNewStep_def random4_def)
  have i: "\<not> gameOver s \<longrightarrow>
          loop tks s =
            (case readPlayerSequence tks (presented s) of
               Waiting \<Rightarrow> Waiting
             | Fault i \<Rightarrow> Fault i
             | Returns (won, s2, tks2) \<Rightarrow>
                 Returns (if won then levelUp s2 else handleGameOver s2, tks2))"
    by (auto simp: loop_def d split: outcome.splits)
  from a b c d f g h i show "gameSequence (addNewStep s) =
       (gameSequence s)[unat (currentLevel s) := word_of_nat (randomSource s 0 mod 4)]
     \<and> gameSequence (addNewStep s) ! unat (currentLevel s) = word_of_nat (randomSource s 0 mod 4)
     \<and> emitted (addNewStep s) = emitted s @ [AddedStep (word_of_nat (randomSource s 0 mod 4))]
     \<and> displaySequence (addNewStep s) = Returns (presented s)
     \<and> length (drop (length (emitted (addNewStep s))) (emitted (presented s))) = unat (currentLevel s) + 1
     \<and> (\<forall>i \<le> unat (currentLevel s).
           drop (length (emitted (addNewStep s))) (emitted (presented s)) ! i =
             ShowStep i (gameSequence (addNewStep s) ! i) (currentSpeed s) (currentSpeed s div 2))
     \<and> currentButtonState (presented s) = currentButtonState s
     \<and> lastButtonState (presented s) = lastButtonState s
     \<and> lastDebounceTime (presented s) = lastDebounceTime s
     \<and> (\<not> gameOver s \<longrightarrow>
          loop tks s =
            (case readPlayerSequence tks (presented s) of
               Waiting \<Rightarrow> Waiting
             | Fault i \<Rightarrow> Fault i
             | Returns (won, s2, tks2) \<Rightarrow>
                 Returns (if won then levelUp s2 else handleGameOver s2, tks2)))"
    by blast
qed

theorem presenting_below_cap_witness:
  "unat (currentLevel (bootWith 0)) < MAX_LEVEL \<and> length (gameSequence (bootWith 0)) = MAX_LEVEL
   \<and> \<not> gameOver (bootWith 0)
   \<and> displaySequence (addNewStep (bootWith 0)) = Returns (presented (bootWith 0))
   \<and> length (drop (length (emitted (addNewStep (bootWith 0)))) (emitted (presented (bootWith 0)))) = 1
   \<and> drop (length (emitted (addNewStep (bootWith 0)))) (emitted (presented (bootWith 0))) ! 0 =
         ShowStep 0 2 1000 500
   \<and> loop (timeoutTicks 0) (bootWith 0) =
         (case readPlayerSequence (timeoutTicks 0) (presented (bootWith 0)) of
            Waiting \<Rightarrow> Waiting
          | Fault i \<Rightarrow> Fault i
          | Returns (won, s2, tks2) \<Rightarrow>
              Returns (if won then levelUp s2 else handleGameOver s2, tks2))"
proof -
  have b: "unat (currentLevel (bootWith 0)) < MAX_LEVEL" "length (gameSequence (bootWith 0)) = MAX_LEVEL"
    "\<not> gameOver (bootWith 0)"
    by (simp_all add: run_defs)
  have v: "unat (currentLevel (bootWith 0)) = 0" "currentSpeed (bootWith 0) = 1000"
    "(word_of_nat (randomSource (bootWith 0) 0 mod 4) :: byte) = 2"
    by (simp_all add: run_defs)
  from presenting_below_cap[of "bootWith 0"] b
  have "gameSequence (addNewStep (bootWith 0)) ! unat (currentLevel (bootWith 0)) =
          word_of_nat (randomSource (bootWith 0) 0 mod 4)"
    "displaySequence (addNewStep (bootWith 0)) = Returns (presented (bootWith 0))"
    "length (drop (length (emitted (addNewStep (bootWith 0)))) (emitted (presented (bootWith 0)))) =
       unat (currentLevel (bootWith 0)) + 1"
    "\<forall>i \<le> unat (currentLevel (bootWith 0)).
       drop (length (emitted (addNewStep (bootWith 0)))) (emitted (presented (bootWith 0))) ! i =
         ShowStep i (gameSequence (addNewStep (bootWith 0)) ! i) (currentSpeed (bootWith 0))
           (currentSpeed (bootWith 0) div 2)"
    by blast+
  then have shown: "displaySequence (addNewStep (bootWith 0)) = Returns (presented (bootWith 0))
   \<and> length (drop (length (emitted (addNewStep (bootWith 0)))) (emitted (presented (bootWith 0)))) = 1
   \<and> drop (length (emitted (addNewStep (bootWith 0)))) (emitted (presented (bootWith 0))) ! 0 =
         ShowStep 0 2 1000 500"
    using v by simp
  from presenting_below_cap[of "bootWith 0" "timeoutTicks 0"] b
  have "loop (timeoutTicks 0) (bootWith 0) =
         (case readPlayerSequence (timeoutTicks 0) (presented (bootWith 0)) of
            Waiting \<Rightarrow> Waiting
          | Fault i \<Rightarrow> Fault i
          | Returns (won, s2, tks2) \<Rightarrow>
              Returns (if won then levelUp s2 else handleGameOver s2, tks2))"
    by blast
  with b shown show ?thesis by blast
qed

text \<open>
  Claim C7 as stated fails at level \<open>MAX_LEVEL\<close>: in the state after 100 rounds won the
  presenting phase draws and appends no symbol (the guard of \<^verbatim>\<open>addNewStep()\<close>), and the
  playback does not complete its 101 presentations.
\<close>

theorem presenting_at_cap_counterexample:
  "\<not> gameOver capState \<and> unat (currentLevel capState) = MAX_LEVEL
   \<and> gameSequence (addNewStep capState) = gameSequence capState
   \<and> randomSource (addNewStep capState) = randomSource capState
   \<and> emitted (addNewStep capState) = emitted capState
   \<and> displaySequence (addNewStep capState) = Fault MAX_LEVEL"
proof -
  have a: "\<not> gameOver capState" "unat (currentLevel capState) = MAX_LEVEL"
    by (simp_all add: capState_def run_defs)
  then have b: "addNewStep capState = capState" by (simp add: addNewStep_def)
  from a b displaySequence_cap[of capState] show ?thesis by simp
qed


subsection \<open>Restart\<close>

lemma checkAnyButton_game: "game_of (snd (checkAnyButton tk s)) = game_of s"
  unfolding checkAnyButton_def by (rule checkButtons_game)

lemma loop_idle:
  "gameOver s \<Longrightarrow>
   loop (tk # rest) s =
     Returns (if fst (checkAnyButton tk s) then resetGame (snd (checkAnyButton tk s))
              else snd (checkAnyButton tk s), rest)"
  by (cases "checkAnyButton tk s") (auto simp: loop_def)

lemma presented_after_reset:
  "emitted (presented (resetGame s)) =
     emitted s @ [StartupSequence, AddedStep (word_of_nat (randomSource s 0 mod 4)),
       ShowStep 0 (gameSequence (addNewStep (resetGame s)) ! 0) (word_of_int INITIAL_SPEED)
         (word_of_int INITIAL_SPEED div 2)]"
  by (simp add: presented_def resetGame_def startupSequence_def addNewStep_def random4_def
      MAX_LEVEL_def)

text \<open>
  Claim C8. From any prior state \<^verbatim>\<open>resetGame()\<close> gives level 0, speed \<open>INITIAL_SPEED\<close>, a
  running game and an empty sequence (the array is not erased; its first \<^verbatim>\<open>currentLevel\<close>
  cells are the sequence, and there are none). In the idle state a call of \<^verbatim>\<open>loop()\<close> whose
  poll reports a press performs exactly this reset, and one whose poll reports none leaves
  the game as it is. The first presentation of the new game is the startup sequence, the
  newly drawn symbol, and that symbol shown for \<open>INITIAL_SPEED\<close>: nothing of it depends on the
  level, speed or sequence of the game before.
\<close>

theorem restart_is_fresh:
  "currentLevel (resetGame s) = 0
   \<and> currentSpeed (resetGame s) = word_of_int INITIAL_SPEED
   \<and> \<not> gameOver (resetGame s)
   \<and> sequence_of (resetGame s) = []
   \<and> (gameOver s \<and> fst (checkAnyButton tk s) \<longrightarrow>
        (\<exists>s'. loop (tk # rest) s = Returns (s', rest)
           \<and> currentLevel s' = 0 \<and> currentSpeed s' = word_of_int INITIAL_SPEED
           \<and> \<not> gameOver s' \<and> sequence_of s' = []))
   \<and> (gameOver s \<and> \<not> fst (checkAnyButton tk s) \<longrightarrow>
        (\<exists>s'. loop (tk # rest) s = Returns (s', rest) \<and> game_of s' = game_of s))
   \<and> (length (gameSequence s) = MAX_LEVEL \<longrightarrow>
        displaySequence (addNewStep (resetGame s)) = Returns (presented (resetGame s))
        \<and> emitted (presented (resetGame s)) =
             emitted s @ [StartupSequence, AddedStep (word_of_nat (randomSource s 0 mod 4)),
               ShowStep 0 (word_of_nat (randomSource s 0 mod 4)) (word_of_int INITIAL_SPEED)
                 (word_of_int INITIAL_SPEED div 2)])"
proof -
  have a: "currentLevel (resetGame s) = 0" "currentSpeed (resetGame s) = word_of_int INITIAL_SPEED"
    "\<not> gameOver (resetGame s)" "sequence_of (resetGame s) = []" for s
    by (simp_all add: resetGame_fields sequence_of_def)
  have b: "\<exists>s'. loop (tk # rest) s = Returns (s', rest)
           \<and> currentLevel s' = 0 \<and> currentSpeed s' = word_of_int INITIAL_SPEED
           \<and> \<not> gameOver s' \<and> sequence_of s' = []"
    if "gameOver s \<and> fst (checkAnyButton tk s)"
    using that a[of "snd (checkAnyButton tk s)"] by (simp add: loop_idle)
  have c: "\<exists>s'. loop (tk # rest) s = Returns (s', rest) \<and> game_of s' = game_of s"
    if "gameOver s \<and> \<not> fst (checkAnyButton tk s)"
    using that by (simp add: loop_idle checkAnyButton_game)
  have d: "displaySequence (addNewStep (resetGame s)) = Returns (presented (resetGame s))
        \<and> emitted (presented (resetGame s)) =
             emitted s @ [StartupSequence, AddedStep (word_of_nat (randomSource s 0 mod 4)),
               ShowStep 0 (word_of_nat (randomSource s 0 mod 4)) (word_of_int INITIAL_SPEED)
                 (word_of_int INITIAL_SPEED div 2)]"
    if len: "length (gameSequence s) = MAX_LEVEL"
  proof -
    have lv: "unat (currentLevel (resetGame s)) < MAX_LEVEL"
      by (simp add: resetGame_fields MAX_LEVEL_def)
    have "displaySequence (addNewStep (resetGame s)) = Returns (presented (resetGame s))"
      using displaySequence_emits[of "addNewStep (resetGame s)"] lv
      by (simp add: addNewStep_level addNewStep_other presented_def)
    moreover have "gameSequence (addNewStep (resetGame s)) ! 0 = word_of_nat (randomSource s 0 mod 4)"
      using len by (simp add: addNewStep_sequence resetGame_fields MAX_LEVEL_def resetGame_def
          startupSequence_def)
    ultimately show ?thesis by (simp add: presented_after_reset)
  qed
  from a[of s] b c d show ?thesis by blast
qed

theorem restart_is_fresh_witness:
  "gameOver lostState \<and> fst (checkAnyButton pressTick lostState)
   \<and> currentLevel lostState = 1 \<and> length (gameSequence lostState) = MAX_LEVEL
   \<and> (\<exists>s'. loop [pressTick] lostState = Returns (s', [])
         \<and> currentLevel s' = 0 \<and> currentSpeed s' = word_of_int INITIAL_SPEED
         \<and> \<not> gameOver s' \<and> sequence_of s' = [])
   \<and> \<not> fst (checkAnyButton idleTick lostState)
   \<and> (\<exists>s'. loop [idleTick] lostState = Returns (s', []) \<and> game_of s' = game_of lostState)
   \<and> displaySequence (addNewStep (resetGame lostState)) = Returns (presented (resetGame lostState))"
proof -
  have a: "gameOver lostState" "fst (checkAnyButton pressTick lostState)"
    "\<not> fst (checkAnyButton idleTick lostState)" "currentLevel lostState = 1"
    "length (gameSequence lostState) = MAX_LEVEL"
    by (simp_all add: lostState_def pressTick_def idleTick_def run_defs)
  from restart_is_fresh[of lostState pressTick "[]"] restart_is_fresh[of lostState idleTick "[]"] a
  show ?thesis by blast
qed

subsection \<open>Debouncing\<close>

lemma not_LOW: "x \<noteq> LOW \<longleftrightarrow> x = HIGH"
  by (cases x) simp_all

lemma not_HIGH: "x \<noteq> HIGH \<longleftrightarrow> x = LOW"
  by (cases x) simp_all

text \<open>readButton on its own channel, as equations for the four values it touches.\<close>

lemma readButton_pressed:
  "fst (readButton b tk s) \<longleftrightarrow>
     sample b tk = LOW \<and> currentButtonState s b = HIGH
     \<and> debounceDelay < millis tk - (if sample b tk \<noteq> lastButtonState s b then millis tk
                                       else lastDebounceTime s b)"
  by (cases "sample b tk"; cases "currentButtonState s b")
     (simp_all add: readButton_def Let_def sample_def)

lemma readButton_current:
  "currentButtonState (snd (readButton b tk s)) b =
     (if debounceDelay < millis tk - (if sample b tk \<noteq> lastButtonState s b then millis tk
                                       else lastDebounceTime s b)
      then sample b tk else currentButtonState s b)"
  by (simp add: readButton_def Let_def sample_def)

lemma readButton_last: "lastButtonState (snd (readButton b tk s)) b = sample b tk"
  by (simp add: readButton_def Let_def sample_def)

lemma readButton_time:
  "lastDebounceTime (snd (readButton b tk s)) b =
     (if sample b tk \<noteq> lastButtonState s b then millis tk else lastDebounceTime s b)"
  by (simp add: readButton_def Let_def sample_def)

lemma pollChannel_append:
  "pollChannel b (xs @ ys) s =
     (fst (pollChannel b xs s) @ fst (pollChannel b ys (snd (pollChannel b xs s))),
      snd (pollChannel b ys (snd (pollChannel b xs s))))"
  by (induction xs arbitrary: s) (simp_all split: prod.splits)

lemma pressEvents_append:
  "pressEvents b (xs @ ys) s =
     pressEvents b xs s + pressEvents b ys (snd (pollChannel b xs s))"
  by (simp add: pressEvents_def pollChannel_append)

lemma pressEvents_Cons:
  "pressEvents b (tk # tks) s =
     (if fst (readButton b tk s) then 1 else 0) + pressEvents b tks (snd (readButton b tk s))"
  by (simp add: pressEvents_def split: prod.splits)

lemma pollChannel_Cons_snd:
  "snd (pollChannel b (tk # tks) s) = snd (pollChannel b tks (snd (readButton b tk s)))"
  by (simp split: prod.splits)

lemma bouncing_silent:
  "bouncing b (lastButtonState s b) (lastDebounceTime s b) tks \<Longrightarrow>
   pressEvents b tks s = 0
   \<and> currentButtonState (snd (pollChannel b tks s)) b = currentButtonState s b"
proof (induction tks arbitrary: s)
  case Nil
  then show ?case by (simp add: pressEvents_def)
next
  case (Cons tk tks)
  let ?s1 = "snd (readButton b tk s)"
  have quiet: "\<not> debounceDelay < millis tk - (if sample b tk \<noteq> lastButtonState s b then millis tk
                                       else lastDebounceTime s b)"
    using Cons.prems by (auto simp: debounceDelay_def not_less)
  have next_ok: "bouncing b (lastButtonState ?s1 b) (lastDebounceTime ?s1 b) tks"
    using Cons.prems by (auto simp: readButton_last readButton_time)
  from Cons.IH[OF next_ok] quiet show ?case
    by (simp add: pressEvents_Cons pollChannel_Cons_snd readButton_pressed readButton_current
        del: pollChannel.simps)
qed

lemma released_silent:
  "\<forall>tk\<in>set tks. sample b tk = HIGH \<Longrightarrow> currentButtonState s b = HIGH \<Longrightarrow>
   lastButtonState s b = HIGH \<Longrightarrow>
   pressEvents b tks s = 0
   \<and> currentButtonState (snd (pollChannel b tks s)) b = HIGH
   \<and> lastButtonState (snd (pollChannel b tks s)) b = HIGH"
proof (induction tks arbitrary: s)
  case Nil
  then show ?case by (simp add: pressEvents_def)
next
  case (Cons tk tks)
  let ?s1 = "snd (readButton b tk s)"
  from Cons.prems have "currentButtonState ?s1 b = HIGH" "lastButtonState ?s1 b = HIGH"
    "\<not> fst (readButton b tk s)"
    by (simp_all add: readButton_current readButton_last readButton_pressed)
  with Cons.IH[of ?s1] Cons.prems(1) show ?case
    by (simp add: pressEvents_Cons pollChannel_Cons_snd del: pollChannel.simps)
qed

lemma held_silent:
  "\<forall>tk\<in>set tks. sample b tk = LOW \<Longrightarrow> currentButtonState s b = LOW \<Longrightarrow>
   pressEvents b tks s = 0"
proof (induction tks arbitrary: s)
  case Nil
  then show ?case by (simp add: pressEvents_def)
next
  case (Cons tk tks)
  let ?s1 = "snd (readButton b tk s)"
  from Cons.prems have "currentButtonState ?s1 b = LOW" "\<not> fst (readButton b tk s)"
    by (simp_all add: readButton_current readButton_pressed)
  with Cons.IH[of ?s1] Cons.prems(1) show ?case
    by (simp add: pressEvents_Cons)
qed

lemma settling_once:
  "\<forall>tk\<in>set tks. sample b tk = LOW \<Longrightarrow> currentButtonState s b = HIGH \<Longrightarrow>
   lastButtonState s b = LOW \<Longrightarrow>
   pressEvents b tks s =
     (if \<exists>tk\<in>set tks. debounceDelay < millis tk - lastDebounceTime s b then 1 else 0)"
proof (induction tks arbitrary: s)
  case Nil
  then show ?case by (simp add: pressEvents_def)
next
  case (Cons tk tks)
  let ?s1 = "snd (readButton b tk s)"
  from Cons.prems have smp: "sample b tk = LOW" and rest: "\<forall>tk\<in>set tks. sample b tk = LOW"
    by simp_all
  show ?case
  proof (cases "debounceDelay < millis tk - lastDebounceTime s b")
    case True
    with Cons.prems smp have "fst (readButton b tk s)" "currentButtonState ?s1 b = LOW"
      by (simp_all add: readButton_pressed readButton_current)
    with held_silent[OF rest, of ?s1] True show ?thesis
      by (simp add: pressEvents_Cons)
  next
    case False
    with Cons.prems smp have "\<not> fst (readButton b tk s)" "currentButtonState ?s1 b = HIGH"
      "lastButtonState ?s1 b = LOW" "lastDebounceTime ?s1 b = lastDebounceTime s b"
      by (simp_all add: readButton_pressed readButton_current readButton_last readButton_time)
    with Cons.IH[OF rest, of ?s1] False show ?thesis
      by (simp add: pressEvents_Cons)
  qed
qed

lemma clean_press_once:
  assumes hs: "\<forall>tk\<in>set hs. sample b tk = HIGH"
    and ls: "\<forall>tk\<in>set ls. sample b tk = LOW"
    and ne: "ls \<noteq> []"
    and long: "\<exists>tk\<in>set ls. debounceDelay < millis tk - millis (hd ls)"
    and st: "currentButtonState s b = HIGH" "lastButtonState s b = HIGH"
  shows "pressEvents b (hs @ ls) s = 1"
proof -
  let ?s1 = "snd (pollChannel b hs s)"
  from released_silent[OF hs st] have h0: "pressEvents b hs s = 0"
    and c1: "currentButtonState ?s1 b = HIGH" and l1: "lastButtonState ?s1 b = HIGH"
    by simp_all
  from ne obtain tk tks where lsc: "ls = tk # tks" by (cases ls) auto
  let ?s2 = "snd (readButton b tk ?s1)"
  from ls lsc have smp: "sample b tk = LOW" and rest: "\<forall>tk\<in>set tks. sample b tk = LOW"
    by simp_all
  from smp c1 l1 have f: "\<not> fst (readButton b tk ?s1)" and c2: "currentButtonState ?s2 b = HIGH"
    and l2: "lastButtonState ?s2 b = LOW" and t2: "lastDebounceTime ?s2 b = millis tk"
    by (simp_all add: readButton_pressed readButton_current readButton_last readButton_time
        debounceDelay_def)
  from long lsc have "\<exists>x\<in>set tks. debounceDelay < millis x - millis tk"
    by (auto simp: debounceDelay_def)
  with settling_once[OF rest c2 l2] t2 have "pressEvents b tks ?s2 = 1" by simp
  with f h0 lsc show ?thesis
    by (simp add: pressEvents_append pressEvents_Cons)
qed


lemma pollChannel_append_snd:
  "snd (pollChannel b (xs @ ys) s) = snd (pollChannel b ys (snd (pollChannel b xs s)))"
  by (simp add: pollChannel_append)

text \<open>Readings that repeat the previous reading.\<close>

lemma steady_readings:
  "\<forall>tk\<in>set tks. sample b tk = x \<Longrightarrow> lastButtonState s b = x \<Longrightarrow>
   currentButtonState (snd (pollChannel b tks s)) b =
     (if \<exists>tk\<in>set tks. debounceDelay < millis tk - lastDebounceTime s b then x
      else currentButtonState s b)
   \<and> lastButtonState (snd (pollChannel b tks s)) b = x
   \<and> pressEvents b tks s =
     (if (\<exists>tk\<in>set tks. debounceDelay < millis tk - lastDebounceTime s b)
         \<and> currentButtonState s b = HIGH \<and> x = LOW then 1 else 0)"
proof (induction tks arbitrary: s)
  case Nil
  then show ?case by (simp add: pressEvents_def)
next
  case (Cons tk tks)
  let ?s1 = "snd (readButton b tk s)"
  from Cons.prems have smp: "sample b tk = x" and rest: "\<forall>tk\<in>set tks. sample b tk = x"
    by simp_all
  from smp Cons.prems(2) have l1: "lastButtonState ?s1 b = x"
    and t1: "lastDebounceTime ?s1 b = lastDebounceTime s b"
    by (simp_all add: readButton_last readButton_time)
  note ih = Cons.IH[OF rest l1, unfolded t1]
  show ?case
  proof (cases "debounceDelay < millis tk - lastDebounceTime s b")
    case True
    with smp Cons.prems(2) have c1: "currentButtonState ?s1 b = x"
      and p1: "fst (readButton b tk s) \<longleftrightarrow> x = LOW \<and> currentButtonState s b = HIGH"
      by (auto simp: readButton_current readButton_pressed)
    have nx: "\<not> (x = HIGH \<and> x = LOW)" by auto
    from ih c1 p1 True nx show ?thesis
      by (auto simp: pressEvents_Cons pollChannel_Cons_snd simp del: pollChannel.simps)
  next
    case False
    with smp Cons.prems(2) have c1: "currentButtonState ?s1 b = currentButtonState s b"
      and p1: "\<not> fst (readButton b tk s)"
      by (simp_all add: readButton_current readButton_pressed)
    from ih c1 p1 False show ?thesis
      by (simp add: pressEvents_Cons pollChannel_Cons_snd del: pollChannel.simps)
  qed
qed

text \<open>A run of equal readings that starts with a change of the reading.\<close>

lemma changed_readings:
  assumes "tks \<noteq> []" "\<forall>tk\<in>set tks. sample b tk = x" "lastButtonState s b \<noteq> x"
  shows "currentButtonState (snd (pollChannel b tks s)) b =
     (if \<exists>tk\<in>set tks. debounceDelay < millis tk - millis (hd tks) then x
      else currentButtonState s b)
   \<and> lastButtonState (snd (pollChannel b tks s)) b = x
   \<and> pressEvents b tks s =
     (if (\<exists>tk\<in>set tks. debounceDelay < millis tk - millis (hd tks))
         \<and> currentButtonState s b = HIGH \<and> x = LOW then 1 else 0)"
proof -
  from assms(1) obtain tk rest where tks: "tks = tk # rest" by (cases tks) auto
  let ?s1 = "snd (readButton b tk s)"
  from assms(2) tks have smp: "sample b tk = x" and rest: "\<forall>tk\<in>set rest. sample b tk = x"
    by simp_all
  from smp assms(3) have l1: "lastButtonState ?s1 b = x"
    and t1: "lastDebounceTime ?s1 b = millis tk"
    and c1: "currentButtonState ?s1 b = currentButtonState s b"
    and p1: "\<not> fst (readButton b tk s)"
    by (auto simp: readButton_last readButton_time readButton_current readButton_pressed
        debounceDelay_def)
  have ex: "(\<exists>u\<in>set tks. debounceDelay < millis u - millis (hd tks))
      \<longleftrightarrow> (\<exists>u\<in>set rest. debounceDelay < millis u - millis tk)"
    using tks by (auto simp: debounceDelay_def)
  from steady_readings[OF rest l1] t1 c1 p1 tks show ?thesis
    unfolding ex by (simp add: pressEvents_Cons pollChannel_Cons_snd del: pollChannel.simps)
qed

lemma press_settles:
  assumes "currentButtonState s b = HIGH" "lastButtonState s b = HIGH" "heldLow b ls"
  shows "pressEvents b ls s = 1
   \<and> currentButtonState (snd (pollChannel b ls s)) b = LOW
   \<and> lastButtonState (snd (pollChannel b ls s)) b = LOW"
  using changed_readings[of ls b LOW s] assms by (simp add: heldLow_def)

lemma release_rearms:
  assumes "currentButtonState s b = LOW" "lastButtonState s b = LOW" "keptHigh b hs"
  shows "pressEvents b hs s = 0
   \<and> currentButtonState (snd (pollChannel b hs s)) b = HIGH
   \<and> lastButtonState (snd (pollChannel b hs s)) b = HIGH"
  using changed_readings[of hs b HIGH s] assms by (simp add: keptHigh_def)

lemma cycleTicks_Cons: "cycleTicks ((ls, hs) # cs) = ls @ hs @ cycleTicks cs"
  by (simp add: cycleTicks_def)

lemma one_event_per_press:
  "currentButtonState s b = HIGH \<Longrightarrow> lastButtonState s b = HIGH \<Longrightarrow>
   \<forall>c\<in>set cs. heldLow b (fst c) \<and> keptHigh b (snd c) \<Longrightarrow>
   pressEvents b (cycleTicks cs) s = length cs
   \<and> currentButtonState (snd (pollChannel b (cycleTicks cs) s)) b = HIGH
   \<and> lastButtonState (snd (pollChannel b (cycleTicks cs) s)) b = HIGH"
proof (induction cs arbitrary: s)
  case Nil
  then show ?case by (simp add: cycleTicks_def pressEvents_def)
next
  case (Cons c cs)
  obtain ls hs where c: "c = (ls, hs)" by (cases c)
  let ?s1 = "snd (pollChannel b ls s)"
  let ?s2 = "snd (pollChannel b hs ?s1)"
  from Cons.prems(3) c have h: "heldLow b ls" "keptHigh b hs"
    and rest: "\<forall>c\<in>set cs. heldLow b (fst c) \<and> keptHigh b (snd c)" by simp_all
  from press_settles[OF Cons.prems(1,2) h(1)] have p: "pressEvents b ls s = 1"
    "currentButtonState ?s1 b = LOW" "lastButtonState ?s1 b = LOW" by simp_all
  from release_rearms[OF p(2,3) h(2)] have r: "pressEvents b hs ?s1 = 0"
    "currentButtonState ?s2 b = HIGH" "lastButtonState ?s2 b = HIGH" by simp_all
  from Cons.IH[OF r(2,3) rest] p r c show ?case
    by (simp add: cycleTicks_Cons pressEvents_append pollChannel_append_snd)
qed


text \<open>
  Claim C6. For every channel \<open>b\<close>, a call of \<^verbatim>\<open>readButton(b)\<close> returns true exactly when it
  moves the debounced level \<^verbatim>\<open>currentButtonState[b]\<close> from \<open>HIGH\<close> to \<open>LOW\<close>, which needs a
  \<open>LOW\<close> reading equal to the previous reading and more than \<^verbatim>\<open>debounceDelay\<close> ms after the
  last change of the readings; so it returns false while the button is held (debounced level
  \<open>LOW\<close>), while it is released (reading \<open>HIGH\<close>) and while it bounces (reading different
  from the previous one). Readings that never stay unchanged for more than the debounce delay
  give no press event over any number of polls and leave the debounced level as it was. From
  a released button, readings \<open>HIGH\<close> followed by readings \<open>LOW\<close>, one of them more than the
  debounce delay after the first \<open>LOW\<close> reading, give exactly one press event. The call
  leaves the debounced level at the reading when the timer is past the delay and as it was
  otherwise, the previous reading at the reading, and the timer restarted exactly when the
  reading changed. A press from the settled released state gives one event and settles the
  button down; a release kept past the delay gives no event and settles the button up again,
  so the next press is reported too: any number of presses in a row, each followed by its
  release, give exactly one event each. The raw level is what the polls read: a level
  between two polls is not seen.
\<close>

theorem debounce_press_events:
  "(fst (readButton b tk s) \<longleftrightarrow>
      currentButtonState s b = HIGH \<and> currentButtonState (snd (readButton b tk s)) b = LOW)
   \<and> (fst (readButton b tk s) \<longrightarrow>
        sample b tk = LOW \<and> lastButtonState s b = LOW
        \<and> debounceDelay < millis tk - lastDebounceTime s b)
   \<and> (currentButtonState s b = LOW \<longrightarrow> \<not> fst (readButton b tk s))
   \<and> (sample b tk = HIGH \<longrightarrow> \<not> fst (readButton b tk s))
   \<and> (sample b tk \<noteq> lastButtonState s b \<longrightarrow>
        \<not> fst (readButton b tk s)
        \<and> currentButtonState (snd (readButton b tk s)) b = currentButtonState s b)
   \<and> (bouncing b (lastButtonState s b) (lastDebounceTime s b) tks \<longrightarrow>
        pressEvents b tks s = 0
        \<and> currentButtonState (snd (pollChannel b tks s)) b = currentButtonState s b)
   \<and> (currentButtonState s b = HIGH \<and> lastButtonState s b = HIGH
        \<and> (\<forall>tk\<in>set hs. sample b tk = HIGH) \<and> (\<forall>tk\<in>set ls. sample b tk = LOW)
        \<and> ls \<noteq> [] \<and> (\<exists>tk\<in>set ls. debounceDelay < millis tk - millis (hd ls)) \<longrightarrow>
        pressEvents b (hs @ ls) s = 1)
   \<and> currentButtonState (snd (readButton b tk s)) b =
        (if debounceDelay < millis tk - (if sample b tk \<noteq> lastButtonState s b then millis tk
                                          else lastDebounceTime s b)
         then sample b tk else currentButtonState s b)
   \<and> lastButtonState (snd (readButton b tk s)) b = sample b tk
   \<and> lastDebounceTime (snd (readButton b tk s)) b =
        (if sample b tk \<noteq> lastButtonState s b then millis tk else lastDebounceTime s b)
   \<and> (currentButtonState s b = HIGH \<and> lastButtonState s b = HIGH \<and> heldLow b down \<longrightarrow>
        pressEvents b down s = 1
        \<and> currentButtonState (snd (pollChannel b down s)) b = LOW
        \<and> lastButtonState (snd (pollChannel b down s)) b = LOW)
   \<and> (currentButtonState s b = LOW \<and> lastButtonState s b = LOW \<and> keptHigh b up \<longrightarrow>
        pressEvents b up s = 0
        \<and> currentButtonState (snd (pollChannel b up s)) b = HIGH
        \<and> lastButtonState (snd (pollChannel b up s)) b = HIGH)
   \<and> (currentButtonState s b = HIGH \<and> lastButtonState s b = HIGH
        \<and> (\<forall>c\<in>set cs. heldLow b (fst c) \<and> keptHigh b (snd c)) \<longrightarrow>
        pressEvents b (cycleTicks cs) s = length cs
        \<and> currentButtonState (snd (pollChannel b (cycleTicks cs) s)) b = HIGH
        \<and> lastButtonState (snd (pollChannel b (cycleTicks cs) s)) b = HIGH)"
proof -
  have a: "fst (readButton b tk s) \<longleftrightarrow>
      currentButtonState s b = HIGH \<and> currentButtonState (snd (readButton b tk s)) b = LOW"
    by (cases "sample b tk"; cases "currentButtonState s b")
       (simp_all add: readButton_pressed readButton_current)
  have b: "sample b tk = LOW \<and> lastButtonState s b = LOW
        \<and> debounceDelay < millis tk - lastDebounceTime s b" if "fst (readButton b tk s)"
  proof (cases "sample b tk = lastButtonState s b")
    case True
    with that show ?thesis by (auto simp: readButton_pressed)
  next
    case False
    with that show ?thesis by (simp add: readButton_pressed debounceDelay_def)
  qed
  have c: "currentButtonState s b = LOW \<longrightarrow> \<not> fst (readButton b tk s)"
    by (simp add: readButton_pressed)
  have d: "sample b tk = HIGH \<longrightarrow> \<not> fst (readButton b tk s)"
    by (simp add: readButton_pressed)
  have e: "sample b tk \<noteq> lastButtonState s b \<longrightarrow>
        \<not> fst (readButton b tk s)
        \<and> currentButtonState (snd (readButton b tk s)) b = currentButtonState s b"
    by (simp add: readButton_pressed readButton_current debounceDelay_def)
  have f: "pressEvents b tks s = 0
        \<and> currentButtonState (snd (pollChannel b tks s)) b = currentButtonState s b"
    if "bouncing b (lastButtonState s b) (lastDebounceTime s b) tks"
    using that by (rule bouncing_silent)
  have g: "pressEvents b (hs @ ls) s = 1"
    if "currentButtonState s b = HIGH \<and> lastButtonState s b = HIGH
        \<and> (\<forall>tk\<in>set hs. sample b tk = HIGH) \<and> (\<forall>tk\<in>set ls. sample b tk = LOW)
        \<and> ls \<noteq> [] \<and> (\<exists>tk\<in>set ls. debounceDelay < millis tk - millis (hd ls))"
    using that clean_press_once[of hs b ls s] by blast
  note h = readButton_current[of b tk s] readButton_last[of b tk s] readButton_time[of b tk s]
  have i: "pressEvents b down s = 1
        \<and> currentButtonState (snd (pollChannel b down s)) b = LOW
        \<and> lastButtonState (snd (pollChannel b down s)) b = LOW"
    if "currentButtonState s b = HIGH \<and> lastButtonState s b = HIGH \<and> heldLow b down"
    using that press_settles[of s b down] by blast
  have j: "pressEvents b up s = 0
        \<and> currentButtonState (snd (pollChannel b up s)) b = HIGH
        \<and> lastButtonState (snd (pollChannel b up s)) b = HIGH"
    if "currentButtonState s b = LOW \<and> lastButtonState s b = LOW \<and> keptHigh b up"
    using that release_rearms[of s b up] by blast
  have k: "pressEvents b (cycleTicks cs) s = length cs
        \<and> currentButtonState (snd (pollChannel b (cycleTicks cs) s)) b = HIGH
        \<and> lastButtonState (snd (pollChannel b (cycleTicks cs) s)) b = HIGH"
    if "currentButtonState s b = HIGH \<and> lastButtonState s b = HIGH
        \<and> (\<forall>c\<in>set cs. heldLow b (fst c) \<and> keptHigh b (snd c))"
    using that one_event_per_press[of s b cs] by blast
  from a b c d e f g h i j k show ?thesis by blast
qed

lemmas poll_defs = pressEvents_def sample_def bounceTicks_def releasedTicks_def heldTicks_def
  lostState_def pressTick_def idleTick_def

theorem debounce_press_events_witness:
  "fst (readButton 1 pressTick lostState)
   \<and> currentButtonState lostState 1 = HIGH
   \<and> currentButtonState (snd (readButton 1 pressTick lostState)) 1 = LOW
   \<and> sample 1 pressTick = LOW \<and> lastButtonState lostState 1 = LOW
   \<and> \<not> fst (readButton 1 pressTick (snd (readButton 1 pressTick lostState)))
   \<and> sample 1 idleTick = HIGH \<and> \<not> fst (readButton 1 idleTick lostState)
   \<and> sample 1 pressTick \<noteq> lastButtonState (bootWith 0) 1
   \<and> \<not> fst (readButton 1 pressTick (bootWith 0))
   \<and> bouncing 1 (lastButtonState (bootWith 0) 1) (lastDebounceTime (bootWith 0) 1) bounceTicks
   \<and> pressEvents 1 bounceTicks (bootWith 0) = 0
   \<and> currentButtonState (bootWith 0) 1 = HIGH \<and> lastButtonState (bootWith 0) 1 = HIGH
   \<and> pressEvents 1 (releasedTicks @ heldTicks) (bootWith 0) = 1
   \<and> heldLow 1 heldTicks \<and> pressEvents 1 heldTicks (bootWith 0) = 1
   \<and> currentButtonState (snd (pollChannel 1 heldTicks (bootWith 0))) 1 = LOW
   \<and> lastButtonState (snd (pollChannel 1 heldTicks (bootWith 0))) 1 = LOW
   \<and> keptHigh 1 upTicks
   \<and> pressEvents 1 upTicks (snd (pollChannel 1 heldTicks (bootWith 0))) = 0
   \<and> currentButtonState
        (snd (pollChannel 1 upTicks (snd (pollChannel 1 heldTicks (bootWith 0))))) 1 = HIGH
   \<and> heldLow 1 heldAgain \<and> keptHigh 1 upAgain
   \<and> pressEvents 1 (cycleTicks [(heldTicks, upTicks), (heldAgain, upAgain)]) (bootWith 0) = 2"
proof -
  have p: "fst (readButton 1 pressTick lostState)"
    by (simp add: poll_defs run_defs)
  from debounce_press_events[of 1 pressTick lostState] p
  have p2: "currentButtonState lostState 1 = HIGH"
    "currentButtonState (snd (readButton 1 pressTick lostState)) 1 = LOW"
    "sample 1 pressTick = LOW" "lastButtonState lostState 1 = LOW"
    by blast+
  from debounce_press_events[of 1 pressTick "snd (readButton 1 pressTick lostState)"] p2(2)
  have h: "\<not> fst (readButton 1 pressTick (snd (readButton 1 pressTick lostState)))" by blast
  have i: "sample 1 idleTick = HIGH" by (simp add: poll_defs run_defs)
  with debounce_press_events[of 1 idleTick lostState]
  have i2: "\<not> fst (readButton 1 idleTick lostState)" by blast
  have j: "sample 1 pressTick \<noteq> lastButtonState (bootWith 0) 1" by (simp add: poll_defs run_defs)
  with debounce_press_events[of 1 pressTick "bootWith 0"]
  have j2: "\<not> fst (readButton 1 pressTick (bootWith 0))" by blast
  have k: "bouncing 1 (lastButtonState (bootWith 0) 1) (lastDebounceTime (bootWith 0) 1) bounceTicks"
    by (simp add: poll_defs run_defs)
  with debounce_press_events[where b = 1 and s = "bootWith 0" and tks = bounceTicks]
  have k2: "pressEvents 1 bounceTicks (bootWith 0) = 0" by blast
  have l: "currentButtonState (bootWith 0) 1 = HIGH" "lastButtonState (bootWith 0) 1 = HIGH"
    "\<forall>tk\<in>set releasedTicks. sample 1 tk = HIGH" "\<forall>tk\<in>set heldTicks. sample 1 tk = LOW"
    "heldTicks \<noteq> []" "\<exists>tk\<in>set heldTicks. debounceDelay < millis tk - millis (hd heldTicks)"
    by (simp_all add: poll_defs run_defs)
  with debounce_press_events[where b = 1 and s = "bootWith 0" and hs = releasedTicks
      and ls = heldTicks]
  have l2: "pressEvents 1 (releasedTicks @ heldTicks) (bootWith 0) = 1" by blast
  have m: "heldLow 1 heldTicks" "keptHigh 1 upTicks" "heldLow 1 heldAgain" "keptHigh 1 upAgain"
    by (simp_all add: heldLow_def keptHigh_def upTicks_def heldAgain_def upAgain_def poll_defs
        run_defs)
  let ?d = "snd (pollChannel 1 heldTicks (bootWith 0))"
  from debounce_press_events[where b = 1 and s = "bootWith 0" and down = heldTicks] l(1,2) m(1)
  have n: "pressEvents 1 heldTicks (bootWith 0) = 1" "currentButtonState ?d 1 = LOW"
    "lastButtonState ?d 1 = LOW" by blast+
  from debounce_press_events[where b = 1 and s = ?d and up = upTicks] n(2,3) m(2)
  have o: "pressEvents 1 upTicks ?d = 0"
    "currentButtonState (snd (pollChannel 1 upTicks ?d)) 1 = HIGH" by blast+
  have "\<forall>c\<in>set [(heldTicks, upTicks), (heldAgain, upAgain)]. heldLow 1 (fst c) \<and> keptHigh 1 (snd c)"
    using m by simp
  with debounce_press_events[where b = 1 and s = "bootWith 0"
      and cs = "[(heldTicks, upTicks), (heldAgain, upAgain)]"] l(1,2)
  have "pressEvents 1 (cycleTicks [(heldTicks, upTicks), (heldAgain, upAgain)]) (bootWith 0)
      = length [(heldTicks, upTicks), (heldAgain, upAgain)]" by blast
  then have q: "pressEvents 1 (cycleTicks [(heldTicks, upTicks), (heldAgain, upAgain)]) (bootWith 0) = 2"
    by simp
  from p p2 h i i2 j j2 k k2 l(1,2) l2 m n o q show ?thesis by blast
qed

subsection \<open>The player's turn\<close>













lemma displaySequence_game: "displaySequence s = Returns s' \<Longrightarrow> game_of s' = game_of s"
  unfolding displaySequence_def by (rule displaySteps_game)







subsection \<open>Contents of the array left over from an earlier game\<close>

lemma put_fields:
  "gameSequence (put g s) = g" "currentLevel (put g s) = currentLevel s"
  "gameOver (put g s) = gameOver s" "currentSpeed (put g s) = currentSpeed s"
  "emitted (put g s) = emitted s" "randomSource (put g s) = randomSource s"
  by (simp_all add: put_def)

lemma readButton_put:
  "readButton b tk (put g s) = (fst (readButton b tk s), put g (snd (readButton b tk s)))"
  by (simp add: readButton_def put_def Let_def)

lemma pollButtons_put:
  "pollButtons bs tk (put g s) = (fst (pollButtons bs tk s), put g (snd (pollButtons bs tk s)))"
proof (induction bs arbitrary: s)
  case Nil
  show ?case by simp
next
  case (Cons b bs)
  show ?case
  proof (cases "readButton b tk s")
    case (Pair p s1)
    with Cons[of s1] show ?thesis
      by (cases p) (simp_all add: readButton_put, simp add: put_def)
  qed
qed

lemma checkButtons_put:
  "checkButtons bs tk (put g s) = (fst (checkButtons bs tk s), put g (snd (checkButtons bs tk s)))"
proof (induction bs arbitrary: s)
  case Nil
  show ?case by simp
next
  case (Cons b bs)
  show ?case
  proof (cases "readButton b tk s")
    case (Pair p s1)
    with Cons[of s1] show ?thesis
      by (cases p) (simp_all add: readButton_put)
  qed
qed

lemma waitForInput_put:
  "waitForInput st tks (put g s) =
     map_outcome (\<lambda>(r, s', tks'). (r, put g s', tks')) (waitForInput st tks s)"
proof (induction tks arbitrary: s)
  case Nil
  show ?case by simp
next
  case (Cons tk tks)
  show ?case
  proof (cases "pollButtons [0, 1, 2, 3] tk s")
    case (Pair p s1)
    with Cons[of s1] show ?thesis
      by (cases p) (simp_all add: pollButtons_put del: pollButtons.simps)
  qed
qed

lemma awaitStep_put:
  "awaitStep tks (put g s) =
     map_outcome (\<lambda>(r, s', tks'). (r, put g s', tks')) (awaitStep tks s)"
  by (cases tks) (simp_all add: awaitStep_def waitForInput_put)


lemma awaitStep_keeps_sequence:
  "awaitStep tks s = Returns (a, s1, tks1) \<Longrightarrow> gameSequence s1 = gameSequence s"
  using awaitStep_game[of tks s a s1 tks1] by (simp add: game_of_def)

lemma playerSteps_put:
  "\<forall>i\<in>set is. i < MAX_LEVEL \<longrightarrow> g ! i = gameSequence s ! i \<Longrightarrow>
   playerSteps is tks (put g s) =
     map_outcome (\<lambda>(w, s', tks'). (w, put g s', tks')) (playerSteps is tks s)"
proof (induction "is" arbitrary: tks s)
  case Nil
  show ?case by simp
next
  case (Cons i "is")
  show ?case
  proof (cases "awaitStep tks s")
    case (Returns r)
    obtain a s1 tks1 where r: "r = (a, s1, tks1)" by (cases r)
    from Returns r have sq: "gameSequence s1 = gameSequence s" by (simp add: awaitStep_keeps_sequence)
    with Cons.prems have ag: "\<forall>i\<in>set is. i < MAX_LEVEL \<longrightarrow> g ! i = gameSequence s1 ! i" by simp
    from Cons.prems sq have at: "gameSequence_at (put g s1) i = gameSequence_at s1 i"
      by (simp add: gameSequence_at_def put_fields)
    from Returns r Cons.IH[OF ag, of tks1] at show ?thesis
      by (cases a) (simp_all add: awaitStep_put split: option.splits)
  qed (simp_all add: awaitStep_put)
qed

lemma displaySteps_put:
  "\<forall>i\<in>set is. i < MAX_LEVEL \<longrightarrow> g ! i = gameSequence s ! i \<Longrightarrow>
   displaySteps is (put g s) = map_outcome (put g) (displaySteps is s)"
proof (induction "is" arbitrary: s)
  case Nil
  show ?case by simp
next
  case (Cons i "is")
  let ?s1 = "s\<lparr>emitted := emitted s @
               [ShowStep i (gameSequence s ! i) (currentSpeed s) (currentSpeed s div 2)]\<rparr>"
  from Cons.prems have ag: "\<forall>i\<in>set is. i < MAX_LEVEL \<longrightarrow> g ! i = gameSequence ?s1 ! i" by simp
  have eq: "i < MAX_LEVEL \<Longrightarrow> (put g s)\<lparr>emitted := emitted (put g s) @
      [ShowStep i (g ! i) (currentSpeed (put g s)) (currentSpeed (put g s) div 2)]\<rparr> = put g ?s1"
    using Cons.prems by (simp add: put_def)
  show ?case
  proof (cases "i < MAX_LEVEL")
    case True
    with Cons.IH[OF ag] eq show ?thesis
      by (simp add: gameSequence_at_def put_fields)
  next
    case False
    then show ?thesis by (simp add: gameSequence_at_def)
  qed
qed

lemma addNewStep_put:
  "addNewStep (put g s) =
     put (if unat (currentLevel s) < MAX_LEVEL
          then g[unat (currentLevel s) := word_of_nat (randomSource s 0 mod 4)] else g)
       (addNewStep s)"
  by (simp add: addNewStep_def random4_def put_def)

lemma levelUp_put: "levelUp (put g s) = put g (levelUp s)"
  by (simp add: levelUp_def put_def Let_def)

lemma handleGameOver_put: "handleGameOver (put g s) = put g (handleGameOver s)"
  by (simp add: handleGameOver_def put_def Let_def)

lemma resetGame_put: "resetGame (put g s) = put g (resetGame s)"
  by (simp add: resetGame_def startupSequence_def put_def)

lemma displaySteps_fault:
  "\<forall>i\<in>set is. i < MAX_LEVEL \<Longrightarrow> displaySteps (is @ MAX_LEVEL # js) s = Fault MAX_LEVEL"
  by (induction "is" arbitrary: s) (simp_all add: gameSequence_at_def)

lemma displaySequence_beyond:
  "MAX_LEVEL \<le> unat (currentLevel s) \<Longrightarrow> displaySequence s = Fault MAX_LEVEL"
proof -
  assume "MAX_LEVEL \<le> unat (currentLevel s)"
  then obtain k where k: "unat (currentLevel s) = MAX_LEVEL + k"
    using le_Suc_ex by blast
  have 1: "[0..<MAX_LEVEL + Suc k] = [0..<MAX_LEVEL] @ [MAX_LEVEL..<MAX_LEVEL + Suc k]"
    by (rule upt_add_eq_append) simp
  have 2: "[MAX_LEVEL..<MAX_LEVEL + Suc k] = MAX_LEVEL # [Suc MAX_LEVEL..<MAX_LEVEL + Suc k]"
    by (rule upt_conv_Cons) simp
  have 3: "Suc (unat (currentLevel s)) = MAX_LEVEL + Suc k" using k by simp
  have "displaySteps ([0..<MAX_LEVEL] @ MAX_LEVEL # [Suc MAX_LEVEL..<MAX_LEVEL + Suc k]) s
      = Fault MAX_LEVEL"
    by (rule displaySteps_fault) simp
  then show ?thesis
    unfolding displaySequence_def 3 1 2 .
qed


lemma loop_put:
  assumes "agree s g"
  shows "\<exists>g'. loop tks (put g s) = map_outcome (\<lambda>(s', tks'). (put g' s', tks')) (loop tks s)
            \<and> (\<forall>s' tks'. loop tks s = Returns (s', tks') \<longrightarrow> agree s' g')"
proof (cases "gameOver s")
  case True
  show ?thesis
  proof (cases tks)
    case Nil
    with True show ?thesis by (simp add: loop_def put_fields)
  next
    case (Cons tk rest)
    obtain p s1 where c: "checkAnyButton tk s = (p, s1)" by (cases "checkAnyButton tk s")
    then have cp: "checkAnyButton tk (put g s) = (p, put g s1)"
      by (simp add: checkAnyButton_def checkButtons_put)
    from c have "game_of s1 = game_of s"
      using checkButtons_game[of "[0, 1, 2, 3]" tk s] by (simp add: checkAnyButton_def)
    with assms True have "agree s1 g" "agree (resetGame s1) g"
      by (simp_all add: agree_def game_of_def resetGame_fields)
    with True Cons c cp have "loop tks (put g s) =
         map_outcome (\<lambda>(s', tks'). (put g s', tks')) (loop tks s)
       \<and> (\<forall>s' tks'. loop tks s = Returns (s', tks') \<longrightarrow> agree s' g)"
      by (cases p) (simp_all add: loop_def put_fields resetGame_put)
    then show ?thesis by blast
  qed
next
  case False
  show ?thesis
  proof (cases "unat (currentLevel s) < MAX_LEVEL")
    case beyond: False
    then have "displaySequence (addNewStep s) = Fault MAX_LEVEL"
      "displaySequence (addNewStep (put g s)) = Fault MAX_LEVEL"
      by (simp_all add: displaySequence_beyond addNewStep_level put_fields)
    with False show ?thesis by (simp add: loop_def put_fields)
  next
    case True
    let ?L = "unat (currentLevel s)"
    let ?g = "g[?L := word_of_nat (randomSource s 0 mod 4)]"
    let ?a = "addNewStep s"
    have ap: "addNewStep (put g s) = put ?g ?a" using True by (simp add: addNewStep_put)
    have sq: "gameSequence ?a = (gameSequence s)[?L := word_of_nat (randomSource s 0 mod 4)]"
      using True by (simp add: addNewStep_def random4_def)
    from assms False have len: "length g = MAX_LEVEL" "length (gameSequence s) = MAX_LEVEL"
      and ag0: "\<forall>i < ?L. g ! i = gameSequence s ! i" by (simp_all add: agree_def)
    have ag1: "\<forall>i \<le> ?L. ?g ! i = gameSequence ?a ! i"
      using len ag0 True by (auto simp: sq nth_list_update)
    then have agd: "\<forall>i\<in>set [0..<Suc ?L]. i < MAX_LEVEL \<longrightarrow> ?g ! i = gameSequence ?a ! i"
      by (auto simp del: upt_Suc simp: less_Suc_eq_le)
    have dp: "displaySequence (put ?g ?a) = map_outcome (put ?g) (displaySequence ?a)"
      using displaySteps_put[OF agd] by (simp add: displaySequence_def put_fields addNewStep_level)
    show ?thesis
    proof (cases "displaySequence ?a")
      case (Returns s1)
      then have g1: "game_of s1 = game_of ?a" by (simp add: displaySequence_def displaySteps_game)
      then have sq1: "gameSequence s1 = gameSequence ?a" "currentLevel s1 = currentLevel s"
        by (simp_all add: game_of_def addNewStep_level)
      with agd have agp: "\<forall>i\<in>set [0..<Suc (unat (currentLevel s1))].
           i < MAX_LEVEL \<longrightarrow> ?g ! i = gameSequence s1 ! i" by simp
      have rp: "readPlayerSequence tks (put ?g s1) =
          map_outcome (\<lambda>(w, s', tks'). (w, put ?g s', tks')) (readPlayerSequence tks s1)"
        using playerSteps_put[OF agp] by (simp add: readPlayerSequence_def put_fields)
      show ?thesis
      proof (cases "readPlayerSequence tks s1")
        case r: (Returns r)
        obtain won s2 tks2 where rr: "r = (won, s2, tks2)" by (cases r)
        from r rr have g2: "game_of s2 = game_of s1"
          by (simp add: readPlayerSequence_def playerSteps_game)
        with g1 have f2: "gameSequence s2 = gameSequence ?a" "currentLevel s2 = currentLevel s"
          "gameOver s2 = gameOver s"
          by (simp_all add: game_of_def addNewStep_level addNewStep_other)
        have lu: "unat (currentLevel s + 1) = Suc ?L"
          using True by (simp add: MAX_LEVEL_def unat_word_ariths)
        have "agree (levelUp s2) ?g"
          using len ag1 f2 lu False
          by (simp add: agree_def levelUp_fields sq less_Suc_eq_le)
        moreover have "agree (handleGameOver s2) ?g"
          using len f2 by (simp add: agree_def handleGameOver_fields sq)
        ultimately have "loop tks (put g s) =
             map_outcome (\<lambda>(s', tks'). (put ?g s', tks')) (loop tks s)
           \<and> (\<forall>s' tks'. loop tks s = Returns (s', tks') \<longrightarrow> agree s' ?g)"
          using False Returns r rr ap dp rp
          by (simp add: loop_def put_fields levelUp_put handleGameOver_put)
        then show ?thesis by blast
      next
        case (Fault i)
        with False Returns ap dp rp show ?thesis by (simp add: loop_def put_fields)
      next
        case Waiting
        with False Returns ap dp rp show ?thesis by (simp add: loop_def put_fields)
      qed
    next
      case (Fault i)
      with False ap dp show ?thesis by (simp add: loop_def put_fields)
    next
      case Waiting
      with False ap dp show ?thesis by (simp add: loop_def put_fields)
    qed
  qed
qed

lemma loops_put:
  "agree s g \<Longrightarrow>
   \<exists>g'. loops n tks (put g s) = map_outcome (\<lambda>(s', tks'). (put g' s', tks')) (loops n tks s)"
proof (induction n arbitrary: s g tks)
  case 0
  have "loops 0 tks (put g s) = map_outcome (\<lambda>(s', tks'). (put g s', tks')) (loops 0 tks s)"
    by simp
  then show ?case by blast
next
  case (Suc n)
  from loop_put[OF Suc.prems, of tks] obtain g1
    where l: "loop tks (put g s) = map_outcome (\<lambda>(s', tks'). (put g1 s', tks')) (loop tks s)"
      and a: "\<forall>s' tks'. loop tks s = Returns (s', tks') \<longrightarrow> agree s' g1" by blast
  show ?case
  proof (cases "loop tks s")
    case (Returns r)
    obtain s1 tks1 where r: "r = (s1, tks1)" by (cases r)
    with Returns a have "agree s1 g1" by simp
    from Suc.IH[OF this, of tks1] obtain g2
      where "loops n tks1 (put g1 s1) =
         map_outcome (\<lambda>(s', tks'). (put g2 s', tks')) (loops n tks1 s1)" by blast
    with Returns r l have "loops (Suc n) tks (put g s) =
         map_outcome (\<lambda>(s', tks'). (put g2 s', tks')) (loops (Suc n) tks s)" by simp
    then show ?thesis by blast
  next
    case (Fault i)
    with l have "loops (Suc n) tks (put g s) =
         map_outcome (\<lambda>(s', tks'). (put g s', tks')) (loops (Suc n) tks s)" by simp
    then show ?thesis by blast
  next
    case Waiting
    with l have "loops (Suc n) tks (put g s) =
         map_outcome (\<lambda>(s', tks'). (put g s', tks')) (loops (Suc n) tks s)" by simp
    then show ?thesis by blast
  qed
qed


lemma observable_fields:
  "emitted (observable s) = emitted s" "highScore (observable s) = highScore s"
  "eeprom (observable s) = eeprom s" "currentLevel (observable s) = currentLevel s"
  "gameOver (observable s) = gameOver s" "currentSpeed (observable s) = currentSpeed s"
  by (simp_all add: observable_def)

text \<open>
  Claim C10. \<^verbatim>\<open>resetGame()\<close> leaves the array as it is. Take a state at the start of a game
  (level 0, game running) and the same state with any other contents \<open>g\<close> in the array, and
  run any number of calls of \<^verbatim>\<open>loop()\<close> on the same ticks (the random generator is part of
  the state, so the draws are the same): the two runs end the same way (both return, both
  fault at the same index, or both are still waiting), leave the same ticks, and their final
  states differ at most in the contents of the array; in particular the emitted events
  (presentations, presses, level-ups, failure and score displays, EEPROM writes), the level,
  the speed, the high score and the game-over flag are the same.
\<close>

theorem leftover_sequence_unobservable:
  "gameSequence (resetGame prior) = gameSequence prior
   \<and> (currentLevel s = 0 \<and> \<not> gameOver s
        \<and> length (gameSequence s) = MAX_LEVEL \<and> length g = MAX_LEVEL \<longrightarrow>
      map_outcome (\<lambda>(s', tks'). (observable s', tks')) (loops n tks (s\<lparr>gameSequence := g\<rparr>))
      = map_outcome (\<lambda>(s', tks'). (observable s', tks')) (loops n tks s))
   \<and> (currentLevel s = 0 \<and> \<not> gameOver s
        \<and> length (gameSequence s) = MAX_LEVEL \<and> length g = MAX_LEVEL
        \<and> loops n tks s = Returns (s1, tks1) \<longrightarrow>
      (\<exists>s2. loops n tks (s\<lparr>gameSequence := g\<rparr>) = Returns (s2, tks1)
         \<and> emitted s2 = emitted s1 \<and> highScore s2 = highScore s1 \<and> eeprom s2 = eeprom s1
         \<and> currentLevel s2 = currentLevel s1 \<and> gameOver s2 = gameOver s1
         \<and> currentSpeed s2 = currentSpeed s1))"
proof -
  have a: "gameSequence (resetGame prior) = gameSequence prior"
    by (simp add: resetGame_fields)
  have b: "map_outcome (\<lambda>(s', tks'). (observable s', tks')) (loops n tks (s\<lparr>gameSequence := g\<rparr>))
      = map_outcome (\<lambda>(s', tks'). (observable s', tks')) (loops n tks s)"
    if h: "currentLevel s = 0 \<and> \<not> gameOver s
        \<and> length (gameSequence s) = MAX_LEVEL \<and> length g = MAX_LEVEL" for n tks
  proof -
    from h have "agree s g" by (simp add: agree_def)
    from loops_put[OF this, of n tks] obtain g'
      where "loops n tks (put g s) = map_outcome (\<lambda>(s', tks'). (put g' s', tks')) (loops n tks s)"
      by blast
    then show ?thesis
      by (cases "loops n tks s") (auto simp: put_def observable_def)
  qed
  have c: "\<exists>s2. loops n tks (s\<lparr>gameSequence := g\<rparr>) = Returns (s2, tks1)
         \<and> emitted s2 = emitted s1 \<and> highScore s2 = highScore s1 \<and> eeprom s2 = eeprom s1
         \<and> currentLevel s2 = currentLevel s1 \<and> gameOver s2 = gameOver s1
         \<and> currentSpeed s2 = currentSpeed s1"
    if h: "currentLevel s = 0 \<and> \<not> gameOver s
        \<and> length (gameSequence s) = MAX_LEVEL \<and> length g = MAX_LEVEL
        \<and> loops n tks s = Returns (s1, tks1)"
  proof -
    from h b[of n tks] obtain s2 where r: "loops n tks (s\<lparr>gameSequence := g\<rparr>) = Returns (s2, tks1)"
      and o: "observable s2 = observable s1"
      by (cases "loops n tks (s\<lparr>gameSequence := g\<rparr>)") auto
    from o observable_fields[of s2] observable_fields[of s1] r show ?thesis by simp
  qed
  from a b c show ?thesis by blast
qed

theorem leftover_sequence_unobservable_witness:
  "currentLevel (bootWith 0) = 0 \<and> \<not> gameOver (bootWith 0)
   \<and> length (gameSequence (bootWith 0)) = MAX_LEVEL \<and> length (replicate MAX_LEVEL (3::byte)) = MAX_LEVEL
   \<and> (\<exists>s1 s2. loops (Suc (Suc 0)) (stepTicks 0 2 @ timeoutTicks 200) (bootWith 0) = Returns (s1, [])
        \<and> loops (Suc (Suc 0)) (stepTicks 0 2 @ timeoutTicks 200)
             ((bootWith 0)\<lparr>gameSequence := replicate MAX_LEVEL 3\<rparr>) = Returns (s2, [])
        \<and> emitted s2 = emitted s1 \<and> highScore s2 = highScore s1 \<and> eeprom s2 = eeprom s1
        \<and> currentLevel s2 = currentLevel s1 \<and> gameOver s2 = gameOver s1)
   \<and> map_outcome (\<lambda>(s', tks'). (observable s', tks'))
        (loops (Suc (Suc 0)) (stepTicks 0 2 @ timeoutTicks 200)
           ((bootWith 0)\<lparr>gameSequence := replicate MAX_LEVEL 3\<rparr>))
      = map_outcome (\<lambda>(s', tks'). (observable s', tks'))
        (loops (Suc (Suc 0)) (stepTicks 0 2 @ timeoutTicks 200) (bootWith 0))"
proof -
  let ?T = "stepTicks 0 2 @ timeoutTicks 200"
  have h: "currentLevel (bootWith 0) = 0" "\<not> gameOver (bootWith 0)"
    "length (gameSequence (bootWith 0)) = MAX_LEVEL" "length (replicate MAX_LEVEL (3::byte)) = MAX_LEVEL"
    by (simp_all add: run_defs)
  have "\<exists>s1. loops (Suc (Suc 0)) ?T (bootWith 0) = Returns (s1, [])"
    by (simp add: run_defs)
  then obtain s1 where l: "loops (Suc (Suc 0)) ?T (bootWith 0) = Returns (s1, [])" by blast
  from leftover_sequence_unobservable[where s = "bootWith 0" and g = "replicate MAX_LEVEL 3"
      and n = "Suc (Suc 0)" and tks = ?T and ?s1.0 = s1 and ?tks1.0 = "[]"] h l
  show ?thesis by blast
qed

subsection \<open>Reads of the sequence at the cap\<close>

lemma step_press:
  assumes "calm s"
  shows "\<exists>s'. awaitStep (stepTicks t 2 @ rest) s = Returns (Some 2, s', rest) \<and> calm s'"
proof (cases "lastButtonState s 2")
  case LOW
  with assms show ?thesis
    by (simp add: calm_def awaitStep_def stepTicks_def readButton_def buttonPins_def pressing_def
        released_def debounceDelay_def Let_def)
next
  case HIGH
  with assms show ?thesis
    by (simp add: calm_def awaitStep_def stepTicks_def readButton_def buttonPins_def pressing_def
        released_def debounceDelay_def Let_def)
qed


lemma calm_buttons:
  "currentButtonState s' = currentButtonState s \<Longrightarrow> lastButtonState s' = lastButtonState s \<Longrightarrow>
   calm s' = calm s"
  by (simp add: calm_def)

lemma playerSteps_win:
  "calm s \<Longrightarrow> \<forall>i\<in>set is. i < MAX_LEVEL \<and> gameSequence s ! i = 2 \<Longrightarrow>
   \<exists>s'. playerSteps is (winTicks t (length is) @ rest) s = Returns (True, s', rest)
        \<and> calm s' \<and> game_of s' = game_of s"
proof (induction "is" arbitrary: s t)
  case Nil
  then show ?case by simp
next
  case (Cons i "is")
  from step_press[OF Cons.prems(1), of t "winTicks (t + 200) (length is) @ rest"]
  obtain s1 where aw: "awaitStep (stepTicks t 2 @ winTicks (t + 200) (length is) @ rest) s =
      Returns (Some 2, s1, winTicks (t + 200) (length is) @ rest)" and c1: "calm s1" by blast
  from awaitStep_game[OF aw] have g1: "game_of s1 = game_of s" .
  then have sq: "gameSequence s1 = gameSequence s" by (simp add: game_of_def)
  with Cons.prems(2) have "\<forall>i\<in>set is. i < MAX_LEVEL \<and> gameSequence s1 ! i = 2" by simp
  from Cons.IH[OF c1 this, of "t + 200"] obtain s'
    where ps: "playerSteps is (winTicks (t + 200) (length is) @ rest) s1 = Returns (True, s', rest)"
      and c': "calm s'" and g': "game_of s' = game_of s1" by blast
  from Cons.prems(2) sq have at: "gameSequence_at s1 i = Some 2"
    by (simp add: gameSequence_at_def)
  from aw at ps have "playerSteps (i # is) (winTicks t (length (i # is)) @ rest) s =
      Returns (True, s', rest)" by simp
  with c' g' g1 show ?case by auto
qed

lemma round_win:
  assumes "winning s L" "L < MAX_LEVEL"
  shows "\<exists>s'. loop (winTicks t (Suc L) @ rest) s = Returns (s', rest) \<and> winning s' (Suc L)"
proof -
  let ?a = "addNewStep s"
  from assms have w: "calm s" "\<not> gameOver s" "unat (currentLevel s) = L"
    "length (gameSequence s) = MAX_LEVEL" "\<forall>i < L. gameSequence s ! i = 2"
    "randomSource s = (\<lambda>_. 2)" "highScore s = 0" "eeprom s = 0" by (simp_all add: winning_def)
  have lv: "unat (currentLevel ?a) < MAX_LEVEL" using w assms(2) by (simp add: addNewStep_level)
  have sq: "gameSequence ?a = (gameSequence s)[L := 2]"
    using w assms(2) by (simp add: addNewStep_sequence)
  have all2: "\<forall>i < Suc L. gameSequence ?a ! i = 2"
    using w assms(2) by (auto simp: sq nth_list_update)
  from displaySequence_emits[OF lv] obtain s1 where d: "displaySequence ?a = Returns s1"
    and b1: "currentButtonState s1 = currentButtonState ?a" "lastButtonState s1 = lastButtonState ?a"
    by simp
  have "currentButtonState ?a = currentButtonState s" "lastButtonState ?a = lastButtonState s"
    by (simp_all add: addNewStep_def random4_def)
  with b1 have "calm s1 = calm s" by (intro calm_buttons) simp_all
  with w have c1: "calm s1" by simp
  from displaySequence_game[OF d] have g1: "game_of s1 = game_of ?a" .
  then have f1: "gameSequence s1 = gameSequence ?a" "currentLevel s1 = currentLevel s"
    by (simp_all add: game_of_def addNewStep_level)
  have "\<forall>i\<in>set [0..<Suc L]. i < MAX_LEVEL \<and> gameSequence s1 ! i = 2"
    using all2 assms(2) f1 by (auto simp del: upt_Suc)
  from playerSteps_win[OF c1 this, of t rest] obtain s2
    where ps: "playerSteps [0..<Suc L] (winTicks t (Suc L) @ rest) s1 = Returns (True, s2, rest)"
      and c2: "calm s2" and g2: "game_of s2 = game_of s1"
    by (auto simp del: upt_Suc winTicks.simps)
  from ps f1 w have rp: "readPlayerSequence (winTicks t (Suc L) @ rest) s1 = Returns (True, s2, rest)"
    by (simp add: readPlayerSequence_def del: upt_Suc winTicks.simps)
  from w d rp have l: "loop (winTicks t (Suc L) @ rest) s = Returns (levelUp s2, rest)"
    by (simp add: loop_def del: winTicks.simps)
  from g1 g2 have f2: "gameSequence s2 = gameSequence ?a" "currentLevel s2 = currentLevel s"
    "gameOver s2 = gameOver s" "randomSource s2 = randomSource ?a"
    "highScore s2 = highScore s" "eeprom s2 = eeprom s"
    by (simp_all add: game_of_def addNewStep_level addNewStep_other)
  have lu: "unat (currentLevel s + 1) = Suc L"
    using w assms(2) by (simp add: MAX_LEVEL_def unat_word_ariths)
  have "calm (levelUp s2) = calm s2"
    by (rule calm_buttons) (simp_all add: levelUp_def Let_def)
  moreover have "randomSource (levelUp s2) = randomSource s2"
    by (simp add: levelUp_def Let_def)
  ultimately have "winning (levelUp s2) (Suc L)"
    using c2 f2 w all2 lu assms(2)
    by (simp add: winning_def levelUp_fields sq addNewStep_random)
  with l show ?thesis by blast
qed

lemma game_win:
  "winning s L \<Longrightarrow> L + n \<le> MAX_LEVEL \<Longrightarrow>
   \<exists>s'. loops n (gameTicks t L n @ rest) s = Returns (s', rest) \<and> winning s' (L + n)"
proof (induction n arbitrary: s L t)
  case 0
  then show ?case by simp
next
  case (Suc n)
  let ?t1 = "t + 200 * word_of_nat (Suc L)"
  from Suc.prems have "L < MAX_LEVEL" by simp
  from round_win[OF Suc.prems(1) this, of t "gameTicks ?t1 (Suc L) n @ rest"] obtain s1
    where l: "loop (winTicks t (Suc L) @ gameTicks ?t1 (Suc L) n @ rest) s =
        Returns (s1, gameTicks ?t1 (Suc L) n @ rest)" and w1: "winning s1 (Suc L)" by blast
  from Suc.prems have "Suc L + n \<le> MAX_LEVEL" by simp
  from Suc.IH[OF w1 this, of ?t1] obtain s'
    where r: "loops n (gameTicks ?t1 (Suc L) n @ rest) s1 = Returns (s', rest)"
      and w': "winning s' (Suc L + n)" by blast
  from l r have "loops (Suc n) (gameTicks t L (Suc n) @ rest) s = Returns (s', rest)"
    by (simp del: winTicks.simps)
  with w' show ?case by auto
qed

lemma winning_boot: "winning (bootWith 0) 0"
  by (simp add: winning_def calm_def run_defs)

lemma loop_at_cap:
  "\<not> gameOver s \<Longrightarrow> MAX_LEVEL \<le> unat (currentLevel s) \<Longrightarrow> loop tks s = Fault MAX_LEVEL"
  by (simp add: loop_def displaySequence_beyond addNewStep_level)

text \<open>
  Claim C9 does not hold of the sketch. After power-up with a generator that always draws 2,
  the player wins 100 rounds (the ticks \<open>gameTicks 0 0 MAX_LEVEL\<close>); the game is then running
  at level \<open>MAX_LEVEL\<close>. \<^verbatim>\<open>levelUp()\<close> has no cap and the loops of \<^verbatim>\<open>displaySequence()\<close> and
  \<^verbatim>\<open>readPlayerSequence()\<close> run up to and including \<^verbatim>\<open>currentLevel\<close>, so the next call of
  \<^verbatim>\<open>loop()\<close>, on any ticks, reads \<^verbatim>\<open>gameSequence[MAX_LEVEL]\<close>, a cell the array does not
  have.
\<close>

theorem sequence_read_out_of_range:
  "\<exists>s. loops MAX_LEVEL (gameTicks 0 0 MAX_LEVEL) (bootWith 0) = Returns (s, [])
      \<and> \<not> gameOver s \<and> unat (currentLevel s) = MAX_LEVEL
      \<and> gameSequence_at s (unat (currentLevel s)) = None
      \<and> displaySequence (addNewStep s) = Fault MAX_LEVEL
      \<and> loop tks s = Fault MAX_LEVEL"
proof -
  from game_win[OF winning_boot, of MAX_LEVEL 0 "[]"] obtain s
    where r: "loops MAX_LEVEL (gameTicks 0 0 MAX_LEVEL) (bootWith 0) = Returns (s, [])"
      and w: "winning s MAX_LEVEL" by auto
  from w have f: "\<not> gameOver s" "unat (currentLevel s) = MAX_LEVEL" by (simp_all add: winning_def)
  then have "gameSequence_at s (unat (currentLevel s)) = None"
    "displaySequence (addNewStep s) = Fault MAX_LEVEL" "loop tks s = Fault MAX_LEVEL"
    by (simp_all add: gameSequence_at_def displaySequence_beyond addNewStep_level loop_at_cap)
  with r f show ?thesis by blast
qed

text \<open>
  The state \<open>capState\<close> has the game fields of the state reached by that run.
\<close>

lemma cap_reachable:
  "\<exists>s. loops MAX_LEVEL (gameTicks 0 0 MAX_LEVEL) (bootWith 0) = Returns (s, [])
      \<and> game_of s = game_of capState"
proof -
  from game_win[OF winning_boot, of MAX_LEVEL 0 "[]"] obtain s
    where r: "loops MAX_LEVEL (gameTicks 0 0 MAX_LEVEL) (bootWith 0) = Returns (s, [])"
      and w: "winning s MAX_LEVEL" by auto
  from w have f: "\<not> gameOver s" "unat (currentLevel s) = MAX_LEVEL"
    "length (gameSequence s) = MAX_LEVEL" "\<forall>i < MAX_LEVEL. gameSequence s ! i = 2"
    "randomSource s = (\<lambda>_. 2)" "highScore s = 0" "eeprom s = 0" by (simp_all add: winning_def)
  from f(3,4) have sq: "gameSequence s = replicate MAX_LEVEL 2"
    by (simp add: list_eq_iff_nth_eq)
  from f(2) have "unat (currentLevel s) = unat (100 :: byte)" by (simp add: MAX_LEVEL_def)
  then have lv: "currentLevel s = 100" by (simp only: word_unat_eq_iff)
  have b: "in_range (bootWith 0)"
    by (simp add: in_range_def speed_ok_def speedFor_def run_defs)
  from loops_in_range[OF r b] have "speed_ok s" by (simp add: in_range_def)
  with lv have "uint (currentSpeed s) = uint (250 :: ulong)"
    by (simp add: speed_ok_def speedFor_def MIN_SPEED_def INITIAL_SPEED_def SPEED_DECREASE_def)
  then have sp: "currentSpeed s = 250" by (simp only: word_uint_eq_iff)
  from sq lv sp f have "game_of s = game_of capState"
    by (simp add: game_of_def capState_def run_defs)
  with r show ?thesis by blast
qed


end
